theory Spec2Isabelle
  imports Complex_Main "HOL-Library.AList"
begin

section \<open>Numbers\<close>

text \<open>
  A JavaScript number is a double: a finite value, one of the two infinities, or NaN.
  The finite doubles are the reals \<open>n * 2 ^ k\<close> with \<open>\<bar>n\<bar> < 2 ^ 53\<close>, \<open>- 1074 \<le> k\<close>
  and magnitude below \<open>2 ^ 1024\<close>; arithmetic returns only those, and the theorems
  below hold of \<open>Fin r\<close> for every real \<open>r\<close>. The two zeros are one value here: the
  program compares them equal, and the sign of a zero shows only in \<open>Math.atan2\<close> of a
  zero argument and in a division by zero, which the room never performs.
\<close>

datatype double = Fin real | PInf | NInf | NaN

text \<open>The nearest integer, the even one of two that are equally near.\<close>

definition round_half_even :: "real \<Rightarrow> int" where
  "round_half_even v =
     (let f = \<lfloor>v\<rfloor>; d = v - of_int f
      in if d < 1 / 2 then f else if 1 / 2 < d then f + 1 else if even f then f else f + 1)"

definition pow2 :: "int \<Rightarrow> real" where
  "pow2 k = 2 powr (of_int k)"

text \<open>
  Rounding of a real result to the nearest double, ties to even: 53 significant bits
  above \<open>2 ^ - 1022\<close>, multiples of \<open>2 ^ - 1074\<close> below, an infinity from \<open>2 ^ 1024\<close> on.
\<close>

definition rnd :: "real \<Rightarrow> double" where
  "rnd t =
     (if t = 0 then Fin 0
      else
        (let e = max \<lfloor>log 2 \<bar>t\<bar>\<rfloor> (- 1022);
             q = pow2 (e - 52);
             r = of_int (round_half_even (t / q)) * q
         in if pow2 1024 \<le> r then PInf else if r \<le> - pow2 1024 then NInf else Fin r))"

fun fneg :: "double \<Rightarrow> double" where
  "fneg (Fin a) = Fin (- a)"
| "fneg PInf = NInf"
| "fneg NInf = PInf"
| "fneg NaN = NaN"

fun fadd :: "double \<Rightarrow> double \<Rightarrow> double" where
  "fadd (Fin a) (Fin b) = rnd (a + b)"
| "fadd NaN b = NaN"
| "fadd a NaN = NaN"
| "fadd PInf NInf = NaN"
| "fadd NInf PInf = NaN"
| "fadd PInf b = PInf"
| "fadd a PInf = PInf"
| "fadd NInf b = NInf"
| "fadd a NInf = NInf"

definition fsub :: "double \<Rightarrow> double \<Rightarrow> double" where
  "fsub a b = fadd a (fneg b)"

fun fmul :: "double \<Rightarrow> double \<Rightarrow> double" where
  "fmul (Fin a) (Fin b) = rnd (a * b)"
| "fmul NaN b = NaN"
| "fmul a NaN = NaN"
| "fmul (Fin a) PInf = (if a = 0 then NaN else if 0 < a then PInf else NInf)"
| "fmul (Fin a) NInf = (if a = 0 then NaN else if 0 < a then NInf else PInf)"
| "fmul PInf (Fin b) = (if b = 0 then NaN else if 0 < b then PInf else NInf)"
| "fmul NInf (Fin b) = (if b = 0 then NaN else if 0 < b then NInf else PInf)"
| "fmul PInf PInf = PInf"
| "fmul PInf NInf = NInf"
| "fmul NInf PInf = NInf"
| "fmul NInf NInf = PInf"

text \<open>A division by zero takes the zero as positive.\<close>

fun fdiv :: "double \<Rightarrow> double \<Rightarrow> double" where
  "fdiv (Fin a) (Fin b) =
     (if b = 0 then (if a = 0 then NaN else if 0 < a then PInf else NInf) else rnd (a / b))"
| "fdiv NaN b = NaN"
| "fdiv a NaN = NaN"
| "fdiv (Fin a) PInf = Fin 0"
| "fdiv (Fin a) NInf = Fin 0"
| "fdiv PInf (Fin b) = (if 0 \<le> b then PInf else NInf)"
| "fdiv NInf (Fin b) = (if 0 \<le> b then NInf else PInf)"
| "fdiv PInf PInf = NaN"
| "fdiv PInf NInf = NaN"
| "fdiv NInf PInf = NaN"
| "fdiv NInf NInf = NaN"

text \<open>\<open>Math.sqrt\<close>.\<close>

fun fsqrt :: "double \<Rightarrow> double" where
  "fsqrt (Fin a) = (if a < 0 then NaN else rnd (sqrt a))"
| "fsqrt PInf = PInf"
| "fsqrt NInf = NaN"
| "fsqrt NaN = NaN"

text \<open>The comparisons \<open><\<close> and \<open><=\<close>: false when an operand is NaN.\<close>

fun js_lt :: "double \<Rightarrow> double \<Rightarrow> bool" where
  "js_lt (Fin a) (Fin b) = (a < b)"
| "js_lt NaN b = False"
| "js_lt a NaN = False"
| "js_lt a NInf = False"
| "js_lt PInf b = False"
| "js_lt NInf b = True"
| "js_lt a PInf = True"


text \<open>\<open>Math.min\<close> and \<open>Math.max\<close> of two numbers: NaN when one of them is.\<close>

fun js_min :: "double \<Rightarrow> double \<Rightarrow> double" where
  "js_min NaN b = NaN"
| "js_min a NaN = NaN"
| "js_min a b = (if js_lt b a then b else a)"

fun js_max :: "double \<Rightarrow> double \<Rightarrow> double" where
  "js_max NaN b = NaN"
| "js_max a NaN = NaN"
| "js_max a b = (if js_lt a b then b else a)"


text \<open>The angle of the point \<open>(x, y)\<close> of the plane, in \<open>(-\<pi>, \<pi>]\<close>, and 0 at the origin.\<close>

definition atan2 :: "real \<Rightarrow> real \<Rightarrow> real" where
  "atan2 y x =
     (if 0 < x then arctan (y / x)
      else if x < 0 then (if 0 \<le> y then arctan (y / x) + pi else arctan (y / x) - pi)
      else if 0 < y then pi / 2
      else if y < 0 then - (pi / 2)
      else 0)"

text \<open>
  \<open>Math.atan2(y, x)\<close>, with the values the language gives it at the infinities. The
  language leaves the precision of the result to the implementation; here it is the
  rounded angle.
\<close>

fun js_atan2 :: "double \<Rightarrow> double \<Rightarrow> double" where
  "js_atan2 (Fin a) (Fin b) = rnd (atan2 a b)"
| "js_atan2 NaN b = NaN"
| "js_atan2 a NaN = NaN"
| "js_atan2 (Fin a) PInf = Fin 0"
| "js_atan2 (Fin a) NInf = (if 0 \<le> a then rnd pi else rnd (- pi))"
| "js_atan2 PInf (Fin b) = rnd (pi / 2)"
| "js_atan2 NInf (Fin b) = rnd (- (pi / 2))"
| "js_atan2 PInf PInf = rnd (pi / 4)"
| "js_atan2 PInf NInf = rnd (3 * pi / 4)"
| "js_atan2 NInf PInf = rnd (- (pi / 4))"
| "js_atan2 NInf NInf = rnd (- (3 * pi / 4))"

text \<open>
  The \<open>%\<close> operator: the remainder has the sign of the dividend. The remainder of two
  doubles is a double, so nothing is rounded.
\<close>

definition js_trunc :: "real \<Rightarrow> int" where
  "js_trunc r = (if 0 \<le> r then \<lfloor>r\<rfloor> else \<lceil>r\<rceil>)"

fun js_rem :: "double \<Rightarrow> double \<Rightarrow> double" where
  "js_rem (Fin a) (Fin b) = (if b = 0 then NaN else Fin (a - b * of_int (js_trunc (a / b))))"
| "js_rem (Fin a) PInf = Fin a"
| "js_rem (Fin a) NInf = Fin a"
| "js_rem a b = NaN"

text \<open>The constants of GameRoom.js.\<close>

definition MOVE_SPEED :: double where
  "MOVE_SPEED = Fin 5"

definition WORLD_SIZE :: double where
  "WORLD_SIZE = Fin 50"

definition TICK_RATE :: double where
  "TICK_RATE = fdiv (Fin 1000) (Fin 60)"

section \<open>The schema (GameState.js)\<close>

record Player =
  id :: string
  name :: string
  x :: double
  y :: double
  z :: double
  rotation :: double
  state :: string
  velocityX :: double
  velocityZ :: double
  health :: double
  hunger :: double
  sanity :: double

definition new_Player :: Player where
  "new_Player = \<lparr> id = '''', name = '''', x = Fin 0, y = Fin 0, z = Fin 0, rotation = Fin 0,
     state = ''idle'', velocityX = Fin 0, velocityZ = Fin 0,
     health = Fin 100, hunger = Fin 100, sanity = Fin 100 \<rparr>"

record WorldObject =
  wo_id :: string
  wo_type :: string
  wo_x :: double
  wo_y :: double
  wo_z :: double
  wo_rotation :: double
  interactable :: bool

section \<open>The room (GameRoom.js)\<close>

text \<open>
  Player objects live in a store and are named by a reference: the \<open>players\<close> map of
  the room state holds references, in insertion order, and so does the closure that an
  \<open>action\<close> message hands to \<open>setTimeout\<close>. \<open>clock\<close> counts milliseconds; \<open>timers\<close>
  is the queue of pending timeouts, each with the time it is due and the Player object
  its callback captured. All timeouts have the same delay, so the queue is in due order.
\<close>

type_synonym ref = nat

record Room =
  players :: "(string \<times> ref) list"
  worldObjects :: "(string \<times> WorldObject) list"
  worldTime :: double
  dayPhase :: string
  heap :: "ref \<Rightarrow> Player"
  next_ref :: ref
  timers :: "(nat \<times> ref) list"
  clock :: nat

text \<open>
  \<open>onCreate\<close>: a new GameState (empty maps, time 0, phase day) filled by
  \<open>generateWorld\<close>. The generated objects are drawn with \<open>Math.random\<close>; they are
  taken as a parameter.
\<close>

definition onCreate :: "(string \<times> WorldObject) list \<Rightarrow> Room" where
  "onCreate wos = \<lparr> players = [], worldObjects = wos, worldTime = Fin 0, dayPhase = ''day'',
     heap = (\<lambda>_. new_Player), next_ref = 0, timers = [], clock = 0 \<rparr>"

datatype js_error = TypeError

datatype message = Move "(double \<times> double) option" | Stop | Action

text \<open>The length that the \<open>move\<close> handler computes of a direction.\<close>

definition moveLength :: "double \<Rightarrow> double \<Rightarrow> double" where
  "moveLength dirX dirZ = fsqrt (fadd (fmul dirX dirX) (fmul dirZ dirZ))"

text \<open>
  The \<open>move\<close> handler. The payload \<open>None\<close> is a message sent without data: destructuring
  \<open>undefined\<close> throws a TypeError, after the lookup of the player. The handler uses
  \<open>dirX\<close> and \<open>dirZ\<close> in arithmetic only, so each stands for the number that the
  decoded field converts to: NaN for a field that is missing or not numeric.
\<close>

definition onMessage_move :: "string \<Rightarrow> (double \<times> double) option \<Rightarrow> Room \<Rightarrow> js_error + Room" where
  "onMessage_move sessionId data s =
     (case map_of (players s) sessionId of
        None \<Rightarrow> Inr s
      | Some r \<Rightarrow>
          (case data of
             None \<Rightarrow> Inl TypeError
           | Some (dirX, dirZ) \<Rightarrow>
               (let len = moveLength dirX dirZ in
                if js_lt (Fin 0) len then
                  Inr (s\<lparr>heap := (heap s)(r := (heap s r)\<lparr>
                         velocityX := fmul (fdiv dirX len) MOVE_SPEED,
                         velocityZ := fmul (fdiv dirZ len) MOVE_SPEED,
                         state := ''walking'',
                         rotation := js_atan2 dirX dirZ\<rparr>)\<rparr>)
                else Inr s)))"

definition onMessage_stop :: "string \<Rightarrow> Room \<Rightarrow> Room" where
  "onMessage_stop sessionId s =
     (case map_of (players s) sessionId of
        None \<Rightarrow> s
      | Some r \<Rightarrow>
          s\<lparr>heap := (heap s)(r := (heap s r)\<lparr>velocityX := Fin 0, velocityZ := Fin 0,
                 state := ''idle''\<rparr>)\<rparr>)"

definition onMessage_action :: "string \<Rightarrow> Room \<Rightarrow> Room" where
  "onMessage_action sessionId s =
     (case map_of (players s) sessionId of
        None \<Rightarrow> s
      | Some r \<Rightarrow>
          s\<lparr>heap := (heap s)(r := (heap s r)\<lparr>state := ''action''\<rparr>),
            timers := timers s @ [(clock s + 500, r)]\<rparr>)"

fun onMessage :: "string \<Rightarrow> message \<Rightarrow> Room \<Rightarrow> js_error + Room" where
  "onMessage sessionId (Move data) s = onMessage_move sessionId data s"
| "onMessage sessionId Stop s = Inr (onMessage_stop sessionId s)"
| "onMessage sessionId Action s = Inr (onMessage_action sessionId s)"

text \<open>The callback of the timeout set by \<open>action\<close>, run on the captured Player object.\<close>

definition revert :: "Player \<Rightarrow> Player" where
  "revert p = (if state p = ''action'' then p\<lparr>state := ''idle''\<rparr> else p)"

text \<open>
  The event loop runs the timeout at the head of the queue once it is due. Time passing
  is a step of its own, so that messages and due timeouts interleave in every order.
\<close>

definition fireTimer :: "Room \<Rightarrow> Room" where
  "fireTimer s =
     (case timers s of
        [] \<Rightarrow> s
      | (due, r) # rest \<Rightarrow>
          if due \<le> clock s then s\<lparr>heap := (heap s)(r := revert (heap s r)), timers := rest\<rparr>
          else s)"

definition elapse :: "nat \<Rightarrow> Room \<Rightarrow> Room" where
  "elapse ms s = s\<lparr>clock := clock s + ms\<rparr>"

text \<open>
  \<open>onJoin\<close>: \<open>name\<close> is \<open>options.name\<close> (\<open>None\<close> when undefined; the empty string is
  falsy as well); \<open>rx\<close> and \<open>rz\<close> are the two results of \<open>Math.random()\<close>. The literal
  \<open>0.5\<close> is a double, \<open>0.8\<close> is rounded to one.
\<close>

definition onJoin :: "string \<Rightarrow> string option \<Rightarrow> double \<Rightarrow> double \<Rightarrow> Room \<Rightarrow> Room" where
  "onJoin sessionId optName rx rz s =
     (let player = new_Player\<lparr>
            id := sessionId,
            name := (case optName of
                       None \<Rightarrow> ''Player_'' @ take 4 sessionId
                     | Some n \<Rightarrow> if n = [] then ''Player_'' @ take 4 sessionId else n),
            x := fmul (fmul (fsub rx (Fin (1 / 2))) WORLD_SIZE) (rnd (8 / 10)),
            z := fmul (fmul (fsub rz (Fin (1 / 2))) WORLD_SIZE) (rnd (8 / 10)),
            y := Fin 0\<rparr>;
          r = next_ref s
      in s\<lparr>heap := (heap s)(r := player), next_ref := Suc r,
           players := AList.update sessionId r (players s)\<rparr>)"

definition onLeave :: "string \<Rightarrow> Room \<Rightarrow> Room" where
  "onLeave sessionId s = s\<lparr>players := AList.delete sessionId (players s)\<rparr>"

text \<open>The body of the \<open>forEach\<close> of \<open>update\<close>, on one Player object.\<close>

definition movePlayer :: "double \<Rightarrow> Player \<Rightarrow> Player" where
  "movePlayer deltaTime p =
     (if velocityX p \<noteq> Fin 0 \<or> velocityZ p \<noteq> Fin 0 then
        (let p1 = p\<lparr>x := fadd (x p) (fmul (velocityX p) deltaTime)\<rparr>;
             p2 = p1\<lparr>z := fadd (z p1) (fmul (velocityZ p1) deltaTime)\<rparr>;
             halfWorld = fdiv WORLD_SIZE (Fin 2);
             p3 = p2\<lparr>x := js_max (fneg halfWorld) (js_min halfWorld (x p2))\<rparr>
         in p3\<lparr>z := js_max (fneg halfWorld) (js_min halfWorld (z p3))\<rparr>)
      else p)"

definition update :: "Room \<Rightarrow> Room" where
  "update s =
     (let deltaTime = fdiv TICK_RATE (Fin 1000);
          h = fold (\<lambda>(sessionId, r) h. h(r := movePlayer deltaTime (h r))) (players s) (heap s);
          wt = fadd (worldTime s) deltaTime;
          dayLength = Fin 480;
          timeOfDay = js_rem wt dayLength
      in s\<lparr>heap := h, worldTime := wt,
           dayPhase := (if js_lt timeOfDay (fmul dayLength (Fin (1 / 2))) then ''day''
                        else if js_lt timeOfDay (fmul dayLength (Fin (5 / 8))) then ''dusk''
                        else ''night'')\<rparr>)"

section \<open>Runs of a room\<close>

datatype event =
    Join string "string option" real real
  | Leave string
  | Message string message
  | Tick
  | Elapse nat
  | FireTimer

text \<open>
  One step of the room. \<open>Math.random()\<close> returns a number in \<open>[0, 1)\<close>; a step of a join
  with another number does not exist. A handler that throws ends the step without one.
  The framework refuses a join to a room that holds \<open>maxClients = 50\<close> clients; here
  every join is taken, which only adds runs.
\<close>

fun step :: "event \<Rightarrow> Room \<Rightarrow> Room option" where
  "step (Join sessionId optName rx rz) s =
     (if 0 \<le> rx \<and> rx < 1 \<and> 0 \<le> rz \<and> rz < 1
      then Some (onJoin sessionId optName (Fin rx) (Fin rz) s)
      else None)"
| "step (Leave sessionId) s = Some (onLeave sessionId s)"
| "step (Message sessionId m) s =
     (case onMessage sessionId m s of Inl e \<Rightarrow> None | Inr s' \<Rightarrow> Some s')"
| "step Tick s = Some (update s)"
| "step (Elapse ms) s = Some (elapse ms s)"
| "step FireTimer s = Some (fireTimer s)"

fun run :: "event list \<Rightarrow> Room \<Rightarrow> Room option" where
  "run [] s = Some s"
| "run (e # es) s = (case step e s of None \<Rightarrow> None | Some s' \<Rightarrow> run es s')"

inductive reachable :: "Room \<Rightarrow> bool" where
  created: "reachable (onCreate wos)"
| stepped: "reachable s \<Longrightarrow> step e s = Some s' \<Longrightarrow> reachable s'"




section \<open>The client's NetworkManager\<close>

text \<open>A state as the client receives it: the two maps in iteration order, and the scalars.\<close>

record Snapshot =
  s_players :: "(string \<times> Player) list"
  s_worldObjects :: "(string \<times> WorldObject) list"
  s_worldTime :: double
  s_dayPhase :: string

record PlayerJoinData =
  pj_id :: string
  pj_name :: string
  pj_x :: double
  pj_y :: double
  pj_z :: double
  pj_rotation :: double
  pj_state :: string
  pj_health :: double
  pj_hunger :: double
  pj_sanity :: double

record PlayerUpdateData =
  pu_x :: double
  pu_y :: double
  pu_z :: double
  pu_rotation :: double
  pu_state :: string
  pu_health :: double
  pu_hunger :: double
  pu_sanity :: double

record WorldObjectData =
  od_id :: string
  od_type :: string
  od_x :: double
  od_y :: double
  od_z :: double
  od_rotation :: double

text \<open>A call of one of the manager's callbacks, with its arguments.\<close>

datatype client_event =
    PlayerJoin string PlayerJoinData
  | PlayerUpdate string PlayerUpdateData
  | PlayerLeave string
  | WorldObjectAdd string WorldObjectData
  | StateChange double string

text \<open>
  The manager's two tracked sets, in insertion order, and for each callback whether one is
  registered (the constructor sets them all to \<open>null\<close>; \<open>processState\<close> calls only those
  that are set).
\<close>

record NetworkManager =
  trackedPlayers :: "string list"
  trackedObjects :: "string list"
  onPlayerJoin :: bool
  onPlayerLeave :: bool
  onPlayerUpdate :: bool
  onWorldObjectAdd :: bool
  onStateChange :: bool

definition new_NetworkManager :: NetworkManager where
  "new_NetworkManager = \<lparr> trackedPlayers = [], trackedObjects = [],
     onPlayerJoin = False, onPlayerLeave = False, onPlayerUpdate = False,
     onWorldObjectAdd = False, onStateChange = False \<rparr>"

text \<open>\<open>Set.prototype.add\<close> on a set kept as the list of its elements in insertion order.\<close>

definition set_add :: "string \<Rightarrow> string list \<Rightarrow> string list" where
  "set_add v vs = (if v \<in> set vs then vs else vs @ [v])"

definition joinData :: "Player \<Rightarrow> PlayerJoinData" where
  "joinData player = \<lparr> pj_id = id player, pj_name = name player, pj_x = x player,
     pj_y = y player, pj_z = z player, pj_rotation = rotation player,
     pj_state = state player, pj_health = health player, pj_hunger = hunger player,
     pj_sanity = sanity player \<rparr>"

definition updateData :: "Player \<Rightarrow> PlayerUpdateData" where
  "updateData player = \<lparr> pu_x = x player, pu_y = y player, pu_z = z player,
     pu_rotation = rotation player, pu_state = state player, pu_health = health player,
     pu_hunger = hunger player, pu_sanity = sanity player \<rparr>"

definition objectData :: "WorldObject \<Rightarrow> WorldObjectData" where
  "objectData obj = \<lparr> od_id = wo_id obj, od_type = wo_type obj, od_x = wo_x obj,
     od_y = wo_y obj, od_z = wo_z obj, od_rotation = wo_rotation obj \<rparr>"

text \<open>
  The body of \<open>state.players.forEach\<close>, on the tracked players, the set
  \<open>currentPlayerIds\<close> and the calls made so far.
\<close>

fun visitPlayer ::
  "bool \<Rightarrow> bool \<Rightarrow> string \<times> Player \<Rightarrow>
   string list \<times> string list \<times> client_event list \<Rightarrow>
   string list \<times> string list \<times> client_event list" where
  "visitPlayer cbJoin cbUpdate (sessionId, player) (tracked, current, calls) =
     (let current1 = set_add sessionId current;
          isNew = sessionId \<notin> set tracked;
          tracked1 = (if isNew then set_add sessionId tracked else tracked);
          calls1 = (if isNew \<and> cbJoin then calls @ [PlayerJoin sessionId (joinData player)]
                    else calls);
          calls2 = (if cbUpdate then calls1 @ [PlayerUpdate sessionId (updateData player)]
                    else calls1)
      in (tracked1, current1, calls2))"

text \<open>
  The body of the loop over \<open>trackedPlayers\<close>. Deleting the element the iteration is at
  does not disturb it: the loop visits the elements the set had when it started.
\<close>

fun checkRemoved ::
  "bool \<Rightarrow> string list \<Rightarrow> string \<Rightarrow> string list \<times> client_event list \<Rightarrow>
   string list \<times> client_event list" where
  "checkRemoved cbLeave current sessionId (tracked, calls) =
     (if sessionId \<notin> set current then
        (removeAll sessionId tracked,
         if cbLeave then calls @ [PlayerLeave sessionId] else calls)
      else (tracked, calls))"

text \<open>The body of \<open>state.worldObjects.forEach\<close>.\<close>

fun visitObject ::
  "bool \<Rightarrow> string \<times> WorldObject \<Rightarrow> string list \<times> client_event list \<Rightarrow>
   string list \<times> client_event list" where
  "visitObject cbAdd (oid, obj) (tracked, calls) =
     (if oid \<notin> set tracked then
        (set_add oid tracked,
         if cbAdd then calls @ [WorldObjectAdd oid (objectData obj)] else calls)
      else (tracked, calls))"

text \<open>\<open>processState\<close> returns the callback calls it made, in order, and the manager after.\<close>

definition processState :: "Snapshot \<Rightarrow> NetworkManager \<Rightarrow> client_event list \<times> NetworkManager" where
  "processState st nm =
     (let (tracked1, currentPlayerIds, calls1) =
            fold (visitPlayer (onPlayerJoin nm) (onPlayerUpdate nm)) (s_players st)
              (trackedPlayers nm, [], []);
          (tracked2, calls2) =
            fold (checkRemoved (onPlayerLeave nm) currentPlayerIds) tracked1 (tracked1, calls1);
          (objects1, calls3) =
            fold (visitObject (onWorldObjectAdd nm)) (s_worldObjects st)
              (trackedObjects nm, calls2);
          calls4 = (if onStateChange nm
                    then calls3 @ [StateChange (s_worldTime st) (s_dayPhase st)] else calls3)
      in (calls4, nm\<lparr>trackedPlayers := tracked2, trackedObjects := objects1\<rparr>))"

text \<open>The states of a connection, processed one after the other.\<close>

fun processAll :: "Snapshot list \<Rightarrow> NetworkManager \<Rightarrow> client_event list \<times> NetworkManager" where
  "processAll [] nm = ([], nm)"
| "processAll (st # sts) nm =
     (let (calls, nm1) = processState st nm;
          (calls', nm2) = processAll sts nm1
      in (calls @ calls', nm2))"

text \<open>How often a list of calls announces the arrival or the departure of an id.\<close>

fun isArrival :: "string \<Rightarrow> client_event \<Rightarrow> bool" where
  "isArrival sid (PlayerJoin i d) = (i = sid)"
| "isArrival sid e = False"

fun isObjectArrival :: "string \<Rightarrow> client_event \<Rightarrow> bool" where
  "isObjectArrival oid (WorldObjectAdd i d) = (i = oid)"
| "isObjectArrival oid e = False"

fun isDeparture :: "string \<Rightarrow> client_event \<Rightarrow> bool" where
  "isDeparture sid (PlayerLeave i) = (i = sid)"
| "isDeparture sid e = False"

definition arrivals :: "string \<Rightarrow> client_event list \<Rightarrow> nat" where
  "arrivals sid calls = length (filter (isArrival sid) calls)"

definition objectArrivals :: "string \<Rightarrow> client_event list \<Rightarrow> nat" where
  "objectArrivals oid calls = length (filter (isObjectArrival oid) calls)"

definition departures :: "string \<Rightarrow> client_event list \<Rightarrow> nat" where
  "departures sid calls = length (filter (isDeparture sid) calls)"

section \<open>The day phase as the design states it\<close>

text \<open>The remainder of the division of \<open>a\<close> by \<open>b\<close>, in \<open>[0, b)\<close> for a positive \<open>b\<close>.\<close>

definition real_mod :: "real \<Rightarrow> real \<Rightarrow> real" where
  "real_mod a b = a - b * of_int \<lfloor>a / b\<rfloor>"

text \<open>
  The phase derivation in the words of the design: with \<open>t = worldTime mod dayLength\<close>,
  \<open>t < 0.5 * dayLength\<close> is day, \<open>t < 0.625 * dayLength\<close> is dusk, anything else is night.
\<close>

definition spec_dayPhase :: "real \<Rightarrow> real \<Rightarrow> string" where
  "spec_dayPhase dayLength wt =
     (let t = real_mod wt dayLength
      in if t < 0.5 * dayLength then ''day''
         else if t < 0.625 * dayLength then ''dusk''
         else ''night'')"

section \<open>Arrivals and departures as the design states them\<close>

text \<open>
  One arrival for every presence interval that begins in a sequence of states, and one
  departure for every one that ends in it. \<open>before\<close> tells whether the id was present
  in the state before the sequence, the list whether it is present in each state of it.
\<close>

fun spec_arrivals :: "bool \<Rightarrow> bool list \<Rightarrow> nat" where
  "spec_arrivals before [] = 0"
| "spec_arrivals before (now # later) =
     (if now \<and> \<not> before then 1 else 0) + spec_arrivals now later"

fun spec_departures :: "bool \<Rightarrow> bool list \<Rightarrow> nat" where
  "spec_departures before [] = 0"
| "spec_departures before (now # later) =
     (if before \<and> \<not> now then 1 else 0) + spec_departures now later"

section \<open>Properties of rooms and events\<close>

text \<open>An event is a message of the session \<open>sid\<close>.\<close>

definition own_message :: "string \<Rightarrow> event \<Rightarrow> bool" where
  "own_message sid e = (case e of Message k m \<Rightarrow> k = sid | _ \<Rightarrow> False)"

text \<open>
  Every reference in the players map is allocated, and no two sessions share a Player
  object.
\<close>

definition wellFormed :: "Room \<Rightarrow> bool" where
  "wellFormed s \<longleftrightarrow>
     (\<forall>k r. map_of (players s) k = Some r \<longrightarrow> r < next_ref s) \<and>
     (\<forall>k k' r. map_of (players s) k = Some r \<longrightarrow> map_of (players s) k' = Some r \<longrightarrow> k = k')"

section \<open>Example rooms\<close>

text \<open>A room with one player, \<open>abcd\<close>, spawned at the origin.\<close>

definition demoRoom :: Room where
  "demoRoom = onJoin ''abcd'' None (Fin (1 / 2)) (Fin (1 / 2)) (onCreate [])"

text \<open>The same room after \<open>abcd\<close> sent \<open>move {dirX: 1, dirZ: 0}\<close>.\<close>

definition walkingRoom :: Room where
  "walkingRoom =
     (case onMessage_move ''abcd'' (Some (Fin 1, Fin 0)) demoRoom of
        Inr s \<Rightarrow> s | Inl e \<Rightarrow> demoRoom)"


text \<open>The room after \<open>abcd\<close> sent \<open>move\<close> with \<open>dirX = 2 ^ 600\<close> and \<open>dirZ = 0\<close> instead.\<close>

definition hugeRoom :: Room where
  "hugeRoom =
     (case onMessage_move ''abcd'' (Some (Fin (pow2 600), Fin 0)) demoRoom of
        Inr s \<Rightarrow> s | Inl e \<Rightarrow> demoRoom)"

text \<open>The room after \<open>abcd\<close> sent \<open>action\<close> at time 0, and the same room 500 ms later.\<close>

definition actionRoom :: Room where
  "actionRoom = onMessage_action ''abcd'' demoRoom"

definition dueRoom :: Room where
  "dueRoom = elapse 500 actionRoom"

text \<open>\<open>abcd\<close> sent \<open>action\<close> at time 0 and \<open>move {dirX: 1, dirZ: 0}\<close> at time 100.\<close>

definition supersededRoom :: Room where
  "supersededRoom =
     (case onMessage_move ''abcd'' (Some (Fin 1, Fin 0)) (elapse 100 actionRoom) of
        Inr s \<Rightarrow> s | Inl e \<Rightarrow> actionRoom)"

text \<open>Then \<open>abcd\<close> sent \<open>action\<close> again at time 400, and the clock reached 500.\<close>

definition secondActionRoom :: Room where
  "secondActionRoom = elapse 100 (onMessage_action ''abcd'' (elapse 300 supersededRoom))"

section \<open>Example snapshots\<close>

text \<open>
  A manager with every callback registered, a world object, and three states: an empty
  one, one with the object, one with the object and a player.
\<close>

definition listeningManager :: NetworkManager where
  "listeningManager = new_NetworkManager\<lparr>onPlayerJoin := True, onPlayerLeave := True,
     onPlayerUpdate := True, onWorldObjectAdd := True, onStateChange := True\<rparr>"

definition rock0 :: WorldObject where
  "rock0 = \<lparr> wo_id = ''rock_0'', wo_type = ''rock'', wo_x = Fin 1, wo_y = Fin 0, wo_z = Fin 2,
     wo_rotation = Fin 0, interactable = True \<rparr>"

definition emptySnapshot :: Snapshot where
  "emptySnapshot = \<lparr> s_players = [], s_worldObjects = [], s_worldTime = Fin 0,
     s_dayPhase = ''day'' \<rparr>"

definition rockSnapshot :: Snapshot where
  "rockSnapshot = emptySnapshot\<lparr>s_worldObjects := [(''rock_0'', rock0)]\<rparr>"

definition playerSnapshot :: Snapshot where
  "playerSnapshot = rockSnapshot\<lparr>s_players := [(''abcd'', new_Player\<lparr>id := ''abcd''\<rparr>)]\<rparr>"

section \<open>Rounding\<close>

lemma rhe_error: "\<bar>of_int (round_half_even v) - v\<bar> \<le> 1 / 2"
  unfolding round_half_even_def Let_def by (auto simp: abs_le_iff)

lemma rhe_int [simp]: "round_half_even (of_int n) = n"
  by (simp add: round_half_even_def)

lemma rhe_nonneg: "0 \<le> v \<Longrightarrow> 0 \<le> round_half_even v"
  unfolding round_half_even_def Let_def by auto

lemma rhe_ge:
  assumes "of_int n \<le> v"
  shows "n \<le> round_half_even v"
proof -
  have "real_of_int n < real_of_int (round_half_even v) + 1"
    using rhe_error [of v] assms by linarith
  then have "real_of_int n < real_of_int (round_half_even v + 1)" by simp
  then have "n < round_half_even v + 1" by (simp only: of_int_less_iff)
  then show ?thesis by simp
qed

lemma rhe_le:
  assumes "v \<le> of_int n"
  shows "round_half_even v \<le> n"
proof -
  have "real_of_int (round_half_even v) < real_of_int n + 1"
    using rhe_error [of v] assms by linarith
  then have "real_of_int (round_half_even v) < real_of_int (n + 1)" by simp
  then have "round_half_even v < n + 1" by (simp only: of_int_less_iff)
  then show ?thesis by simp
qed

lemma pow2_pos [simp]: "0 < pow2 k"
  by (simp add: pow2_def)

lemma pow2_neq0 [simp]: "pow2 k \<noteq> 0"
  by (simp add: pow2_def)

lemma pow2_nonneg [simp]: "0 \<le> pow2 k"
  by (simp add: pow2_def)

lemma pow2_add: "pow2 (a + b) = pow2 a * pow2 b"
  by (simp add: pow2_def powr_add)

lemma pow2_split: "a + b = c \<Longrightarrow> pow2 c = pow2 a * pow2 b"
  using pow2_add [of a b] by simp

lemma pow2_diff: "pow2 (a - b) = pow2 a / pow2 b"
  by (simp add: pow2_def powr_diff)

lemma pow2_0 [simp]: "pow2 0 = 1"
  by (simp add: pow2_def)

lemma pow2_1 [simp]: "pow2 1 = 2"
  by (simp add: pow2_def)

lemma pow2_le_iff [simp]: "pow2 a \<le> pow2 b \<longleftrightarrow> a \<le> b"
  by (simp add: pow2_def)

lemma pow2_less_iff [simp]: "pow2 a < pow2 b \<longleftrightarrow> a < b"
  by (simp add: pow2_def)

lemma pow2_Suc: "pow2 (a + 1) = 2 * pow2 a"
  by (simp add: pow2_add)

lemma pow2_half: "pow2 a / 2 = pow2 (a - 1)"
  by (simp add: pow2_diff)

lemma pow2_nat: "pow2 (int n) = 2 ^ n"
  by (simp add: pow2_def powr_realpow)

lemma pow2_of_int: "0 \<le> j \<Longrightarrow> pow2 j = of_int (2 ^ nat j)"
  using pow2_nat [of "nat j"] by simp

lemma binade:
  assumes "t \<noteq> 0"
  shows "pow2 \<lfloor>log 2 \<bar>t\<bar>\<rfloor> \<le> \<bar>t\<bar>"
    and "\<bar>t\<bar> < pow2 (\<lfloor>log 2 \<bar>t\<bar>\<rfloor> + 1)"
  using floor_log_eq_powr_iff [of "\<bar>t\<bar>" 2 "\<lfloor>log 2 \<bar>t\<bar>\<rfloor>"] assms
  by (simp_all add: pow2_def)

lemma rnd_cases:
  assumes "t \<noteq> 0"
    and "e = max \<lfloor>log 2 \<bar>t\<bar>\<rfloor> (- 1022)"
    and "q = pow2 (e - 52)"
    and "r = of_int (round_half_even (t / q)) * q"
  shows "rnd t = (if pow2 1024 \<le> r then PInf else if r \<le> - pow2 1024 then NInf else Fin r)"
    and "\<bar>r - t\<bar> \<le> q / 2" and "0 < q"
proof -
  show "rnd t = (if pow2 1024 \<le> r then PInf else if r \<le> - pow2 1024 then NInf else Fin r)"
    using assms by (simp add: rnd_def Let_def)
  show q: "0 < q" using assms(3) by simp
  have "\<bar>r - t\<bar> = q * \<bar>of_int (round_half_even (t / q)) - t / q\<bar>"
    using q by (simp add: assms(4) abs_mult [symmetric] field_simps)
  also have "\<dots> \<le> q * (1 / 2)"
    using q rhe_error [of "t / q"] by (intro mult_left_mono) simp_all
  finally show "\<bar>r - t\<bar> \<le> q / 2" by simp
qed

lemma rnd_error:
  assumes "\<bar>t\<bar> < pow2 1024 - pow2 970"
  shows "\<exists>r. rnd t = Fin r \<and> \<bar>r - t\<bar> \<le> \<bar>t\<bar> * pow2 (- 53) + pow2 (- 1075)"
proof (cases "t = 0")
  case True
  then show ?thesis by (simp add: rnd_def order_less_imp_le)
next
  case False
  define k where "k = \<lfloor>log 2 \<bar>t\<bar>\<rfloor>"
  define e where "e = max k (- 1022)"
  define q where "q = pow2 (e - 52)"
  define r where "r = of_int (round_half_even (t / q)) * q"
  note c = rnd_cases [OF False e_def [unfolded k_def] q_def r_def]
  note b = binade [OF False, folded k_def]
  have "pow2 k < pow2 1024" using b(1) assms pow2_pos [of 970] by linarith
  then have k: "k \<le> 1023" by simp
  then have e: "e \<le> 1023" by (simp add: e_def)
  have "q \<le> pow2 971" unfolding q_def using e by simp
  then have q970: "q / 2 \<le> pow2 970" using pow2_half [of 971] by simp
  have small: "q / 2 \<le> \<bar>t\<bar> * pow2 (- 53) + pow2 (- 1075)"
  proof (cases "- 1022 \<le> k")
    case True
    then have "e = k" by (simp add: e_def)
    then have "q / 2 = pow2 k * pow2 (- 53)"
      using pow2_add [of k "- 53"] by (simp add: q_def pow2_half)
    also have "\<dots> \<le> \<bar>t\<bar> * pow2 (- 53)" using b(1) by (simp add: mult_right_mono)
    finally show ?thesis using pow2_pos [of "- 1075"] by linarith
  next
    case False
    then have "e = - 1022" by (simp add: e_def)
    then have "q / 2 = pow2 (- 1075)" by (simp add: q_def pow2_half)
    moreover have "0 \<le> \<bar>t\<bar> * pow2 (- 53)" by simp
    ultimately show ?thesis by linarith
  qed
  have "\<bar>r\<bar> \<le> \<bar>t\<bar> + q / 2" using c(2) by linarith
  then have fin: "\<bar>r\<bar> < pow2 1024" using assms q970 by linarith
  have "rnd t = Fin r" using c(1) fin by (auto simp: abs_less_iff)
  then show ?thesis using c(2) small by auto
qed

lemma rnd_pos:
  assumes "0 < t"
    and "e = max \<lfloor>log 2 t\<rfloor> (- 1022)"
    and "r = of_int (round_half_even (t / pow2 (e - 52))) * pow2 (e - 52)"
  shows "rnd t = (if pow2 1024 \<le> r then PInf else Fin r)"
    and "0 \<le> r" and "r \<le> pow2 (e + 1)"
    and "- 1022 \<le> \<lfloor>log 2 t\<rfloor> \<Longrightarrow> pow2 e \<le> r"
proof -
  define q where "q = pow2 (e - 52)"
  define n where "n = round_half_even (t / q)"
  have t0: "t \<noteq> 0" using assms(1) by simp
  have e': "e = max \<lfloor>log 2 \<bar>t\<bar>\<rfloor> (- 1022)" using assms(1,2) by simp
  have r': "r = of_int (round_half_even (t / q)) * q" using assms(3) by (simp add: q_def)
  note c = rnd_cases [OF t0 e' q_def r']
  have b: "pow2 \<lfloor>log 2 t\<rfloor> \<le> t" "t < pow2 (\<lfloor>log 2 t\<rfloor> + 1)"
    using binade [OF t0] assms(1) by simp_all
  have r: "r = of_int n * q" by (simp add: assms(3) q_def n_def)
  have "0 \<le> t / q" using assms(1) by (simp add: q_def)
  then have n0: "0 \<le> n" unfolding n_def by (rule rhe_nonneg)
  then show r0: "0 \<le> r" by (simp add: r q_def)
  then show "rnd t = (if pow2 1024 \<le> r then PInf else Fin r)"
    using c(1) pow2_pos [of 1024] by auto
  have "\<lfloor>log 2 t\<rfloor> + 1 \<le> e + 1" by (simp add: assms(2))
  then have "pow2 (\<lfloor>log 2 t\<rfloor> + 1) \<le> pow2 (e + 1)" by (simp only: pow2_le_iff)
  then have "t < pow2 (e + 1)" using b(2) by linarith
  also have "pow2 (e + 1) = pow2 53 * q" unfolding q_def by (rule pow2_split) simp
  finally have "t / q < pow2 53" by (simp add: q_def pos_divide_less_eq)
  then have "t / q \<le> of_int (2 ^ 53)" by (simp add: pow2_of_int)
  then have "n \<le> 2 ^ 53" unfolding n_def by (rule rhe_le)
  then have "real_of_int n \<le> of_int (2 ^ 53)" by (simp only: of_int_le_iff)
  then have n53: "of_int n \<le> pow2 53" by (simp add: pow2_of_int)
  have "r \<le> pow2 53 * q" unfolding r using n53 by (simp add: q_def mult_right_mono)
  then show "r \<le> pow2 (e + 1)" using pow2_split [of 53 "e - 52" "e + 1"] by (simp add: q_def)
  show "pow2 e \<le> r" if "- 1022 \<le> \<lfloor>log 2 t\<rfloor>"
  proof -
    have e: "e = \<lfloor>log 2 t\<rfloor>" using that assms(2) by simp
    have pe: "pow2 52 * q = pow2 e" using pow2_split [of 52 "e - 52" e] by (simp add: q_def)
    then have "pow2 52 * q \<le> t" using b(1) e by simp
    then have "pow2 52 \<le> t / q" by (simp add: q_def pos_le_divide_eq)
    then have "of_int (2 ^ 52) \<le> t / q" by (simp add: pow2_of_int)
    then have "2 ^ 52 \<le> n" unfolding n_def by (rule rhe_ge)
    then have "real_of_int (2 ^ 52) \<le> of_int n" by (simp only: of_int_le_iff)
    then have "pow2 52 \<le> of_int n" by (simp add: pow2_of_int)
    then have "pow2 52 * q \<le> r" unfolding r by (simp add: q_def mult_right_mono)
    then show ?thesis using pe by simp
  qed
qed

lemma rnd_zero [simp]: "rnd 0 = Fin 0"
  by (simp add: rnd_def)

lemma rnd_nonneg:
  assumes "0 \<le> t"
  shows "rnd t = PInf \<or> (\<exists>r. rnd t = Fin r \<and> 0 \<le> r \<and> r \<le> pow2 1024 - pow2 971)"
proof (cases "t = 0")
  case True
  have "pow2 971 \<le> pow2 1024" by simp
  then show ?thesis using True by simp
next
  case False
  then have t: "0 < t" using assms by simp
  define e where "e = max \<lfloor>log 2 t\<rfloor> (- 1022)"
  define n where "n = round_half_even (t / pow2 (e - 52))"
  define r where "r = of_int n * pow2 (e - 52)"
  note p = rnd_pos [OF t e_def r_def [unfolded n_def]]
  show ?thesis
  proof (cases "pow2 1024 \<le> r")
    case True
    then show ?thesis using p(1) by simp
  next
    case fin: False
    have e: "e \<le> 1023"
    proof (rule ccontr)
      assume "\<not> e \<le> 1023"
      then have e1024: "1024 \<le> e" by simp
      then have "- 1022 \<le> \<lfloor>log 2 t\<rfloor>" by (simp add: e_def max_def split: if_splits)
      then have "pow2 e \<le> r" by (rule p(4))
      moreover have "pow2 1024 \<le> pow2 e" using e1024 by simp
      ultimately show False using fin by linarith
    qed
    have "r \<le> pow2 1024 - pow2 971"
    proof (cases "e = 1023")
      case True
      have q: "pow2 (e - 52) = pow2 971" using True by simp
      have big: "pow2 1024 = pow2 53 * pow2 971" by (rule pow2_split) simp
      have "of_int n * pow2 971 < pow2 53 * pow2 971" using fin by (simp add: r_def q big)
      then have "real_of_int n < pow2 53" by simp
      then have "real_of_int n < of_int (2 ^ 53)" by (simp add: pow2_of_int)
      then have "n < 2 ^ 53" by (simp only: of_int_less_iff)
      then have "n \<le> 2 ^ 53 - 1" by simp
      then have "real_of_int n \<le> of_int (2 ^ 53 - 1)" by (simp only: of_int_le_iff)
      then have "real_of_int n \<le> pow2 53 - 1" by (simp add: pow2_of_int)
      then have "of_int n * pow2 971 \<le> (pow2 53 - 1) * pow2 971"
        by (intro mult_right_mono) simp_all
      then show ?thesis by (simp add: r_def q big algebra_simps)
    next
      case False
      then have "e + 1 \<le> 1023" using e by simp
      then have "pow2 (e + 1) \<le> pow2 1023" by simp
      moreover have "pow2 1024 = 2 * pow2 1023" using pow2_Suc [of 1023] by simp
      moreover have "pow2 971 \<le> pow2 1023" by simp
      ultimately show ?thesis using p(3) by linarith
    qed
    then show ?thesis using p(1,2) fin by simp
  qed
qed

lemma rnd_overflow:
  assumes "pow2 1024 \<le> t"
  shows "rnd t = PInf"
proof -
  have t: "0 < t" using assms pow2_pos [of 1024] by linarith
  define e where "e = max \<lfloor>log 2 t\<rfloor> (- 1022)"
  define r where "r = of_int (round_half_even (t / pow2 (e - 52))) * pow2 (e - 52)"
  note p = rnd_pos [OF t e_def r_def]
  have "t \<noteq> 0" "\<bar>t\<bar> = t" using t by simp_all
  then have "t < pow2 (\<lfloor>log 2 t\<rfloor> + 1)" using binade(2) [of t] by simp
  then have "pow2 1024 < pow2 (\<lfloor>log 2 t\<rfloor> + 1)" using assms by linarith
  then have k: "1024 \<le> \<lfloor>log 2 t\<rfloor>" by simp
  then have "pow2 e \<le> r" by (intro p(4)) simp
  moreover have "pow2 1024 \<le> pow2 e" using k by (simp add: e_def)
  ultimately have "pow2 1024 \<le> r" by linarith
  then show ?thesis using p(1) by simp
qed

lemma rnd_exact:
  assumes t: "t = of_int n * pow2 k" and n: "\<bar>n\<bar> < 2 ^ 53" and k: "- 1074 \<le> k"
    and fin: "\<bar>t\<bar> < pow2 1024"
  shows "rnd t = Fin t"
proof (cases "t = 0")
  case True
  then show ?thesis by simp
next
  case False
  define kk where "kk = \<lfloor>log 2 \<bar>t\<bar>\<rfloor>"
  define e where "e = max kk (- 1022)"
  define q where "q = pow2 (e - 52)"
  define r where "r = of_int (round_half_even (t / q)) * q"
  note c = rnd_cases [OF False e_def [unfolded kk_def] q_def r_def]
  note b = binade [OF False, folded kk_def]
  have "real_of_int \<bar>n\<bar> < of_int (2 ^ 53)" using n by (simp only: of_int_less_iff)
  then have "\<bar>real_of_int n\<bar> < pow2 53" by (simp add: pow2_of_int)
  then have "\<bar>t\<bar> < pow2 53 * pow2 k" by (simp add: t abs_mult)
  then have "pow2 kk < pow2 (53 + k)" using b(1) pow2_split [of 53 k "53 + k"] by simp
  then have "kk - 52 \<le> k" by simp
  then have j: "0 \<le> k - (e - 52)" using k by (simp add: e_def)
  have "t / q = of_int n * pow2 (k - (e - 52))" by (simp add: t q_def pow2_diff)
  also have "\<dots> = of_int (n * 2 ^ nat (k - (e - 52)))" by (simp add: pow2_of_int [OF j])
  finally have tq: "t / q = of_int (n * 2 ^ nat (k - (e - 52)))" .
  have "r = (t / q) * q" unfolding r_def by (simp only: tq rhe_int)
  then have "r = t" by (simp add: q_def)
  then show ?thesis using c(1) fin by (auto simp: abs_less_iff)
qed

lemma rnd_int: "\<bar>n\<bar> < 2 ^ 53 \<Longrightarrow> rnd (of_int n) = Fin (of_int n)"
proof -
  assume n: "\<bar>n\<bar> < 2 ^ 53"
  have "real_of_int \<bar>n\<bar> < of_int (2 ^ 53)" using n by (simp only: of_int_less_iff)
  then have "\<bar>real_of_int n\<bar> < pow2 53" by (simp add: pow2_of_int)
  moreover have "pow2 53 < pow2 1024" by simp
  ultimately have "\<bar>real_of_int n\<bar> < pow2 1024" by linarith
  then show ?thesis using rnd_exact [of "of_int n" n 0] n by simp
qed

lemma rnd_small_ints [simp]:
  "rnd 1 = Fin 1" "rnd 5 = Fin 5" "rnd 25 = Fin 25" "rnd 240 = Fin 240" "rnd 300 = Fin 300"
  using rnd_int [of 1] rnd_int [of 5] rnd_int [of 25] rnd_int [of 240] rnd_int [of 300]
  by simp_all

lemma rnd_not_NaN [simp]: "rnd t \<noteq> NaN"
  by (simp add: rnd_def Let_def)

lemma rnd_underflow:
  assumes "\<bar>t\<bar> < pow2 (- 1075)"
  shows "rnd t = Fin 0"
proof (cases "t = 0")
  case True
  then show ?thesis by simp
next
  case False
  define k where "k = \<lfloor>log 2 \<bar>t\<bar>\<rfloor>"
  define e where "e = max k (- 1022)"
  define q where "q = pow2 (e - 52)"
  define r where "r = of_int (round_half_even (t / q)) * q"
  note c = rnd_cases [OF False e_def [unfolded k_def] q_def r_def]
  note b = binade [OF False, folded k_def]
  have "pow2 k < pow2 (- 1075)" using b(1) assms by linarith
  then have "e = - 1022" by (simp add: e_def)
  then have q: "q = pow2 (- 1074)" by (simp add: q_def)
  have "pow2 (- 1075) = q / 2" by (simp add: q pow2_half)
  then have "\<bar>t\<bar> < q / 2" using assms by simp
  then have "\<bar>t / q\<bar> < 1 / 2" using c(3) by (simp add: abs_divide pos_divide_less_eq)
  then have "\<bar>real_of_int (round_half_even (t / q))\<bar> < 1"
    using rhe_error [of "t / q"] by linarith
  then have "round_half_even (t / q) = 0" by linarith
  then have "r = 0" by (simp add: r_def)
  then show ?thesis using c(1) pow2_pos [of 1024] by (simp add: not_le)
qed

lemma pow2_minus: "pow2 (- int n) = 1 / 2 ^ n"
  using pow2_diff [of 0 "int n"] by (simp add: pow2_nat)

lemma unit_roundoff: "pow2 (- 53) = 1 / 2 ^ 53"
  using pow2_minus [of 53] by simp

lemma unit_roundoff_small: "pow2 (- 53) \<le> 1 / 1024"
proof -
  have "pow2 (- 53) \<le> pow2 (- 10)" by simp
  also have "pow2 (- 10) = 1 / 2 ^ 10" using pow2_minus [of 10] by simp
  finally show ?thesis by simp
qed

lemma tiny_small: "pow2 (- 1075) \<le> 1 / 2 ^ 60"
proof -
  have "pow2 (- 1075) \<le> pow2 (- 60)" by simp
  also have "pow2 (- 60) = 1 / 2 ^ 60" using pow2_minus [of 60] by simp
  finally show ?thesis .
qed

lemma in_range:
  assumes "\<bar>t\<bar> \<le> pow2 1010"
  shows "\<bar>t\<bar> < pow2 1024 - pow2 970"
proof -
  have "pow2 1024 = 2 * pow2 1023" using pow2_Suc [of 1023] by simp
  moreover have "pow2 970 \<le> pow2 1023" "pow2 1010 < pow2 1023" by simp_all
  ultimately show ?thesis using assms by linarith
qed

lemma rnd_near:
  assumes "\<bar>t\<bar> \<le> pow2 1010"
  shows "\<exists>r. rnd t = Fin r \<and> \<bar>r - t\<bar> \<le> \<bar>t\<bar> / 2 ^ 53 + pow2 (- 1075)"
  using rnd_error [OF in_range [OF assms]] by (simp add: unit_roundoff)

lemma small_le_pow2: "\<bar>t\<bar> \<le> 1024 \<Longrightarrow> \<bar>t\<bar> \<le> pow2 1010"
proof -
  assume "\<bar>t\<bar> \<le> 1024"
  moreover have "pow2 10 \<le> pow2 1010" by simp
  moreover have "pow2 10 = 2 ^ 10" using pow2_nat [of 10] by simp
  ultimately show ?thesis by simp
qed

lemma rnd_near_small:
  assumes "\<bar>t\<bar> \<le> 1024"
  shows "\<exists>r. rnd t = Fin r \<and> \<bar>r - t\<bar> \<le> 1 / 1000000"
proof -
  obtain r where r: "rnd t = Fin r" "\<bar>r - t\<bar> \<le> \<bar>t\<bar> / 2 ^ 53 + pow2 (- 1075)"
    using rnd_near [OF small_le_pow2 [OF assms]] by blast
  have "\<bar>t\<bar> / 2 ^ 53 \<le> 1024 / 2 ^ 53" using assms by (simp add: divide_right_mono)
  moreover have "(1024::real) / 2 ^ 53 + 1 / 2 ^ 60 \<le> 1 / 1000000" by simp
  ultimately have "\<bar>r - t\<bar> \<le> 1 / 1000000" using r(2) tiny_small by linarith
  then show ?thesis using r(1) by blast
qed

lemma halfWorld [simp]: "fdiv WORLD_SIZE (Fin 2) = Fin 25"
  by (simp add: WORLD_SIZE_def)

lemma deltaTime:
  "\<exists>d. fdiv TICK_RATE (Fin 1000) = Fin d \<and> 0 < d \<and> d \<le> 1"
proof -
  have "\<bar>1000 / 60 :: real\<bar> \<le> 1024" by simp
  then obtain tr where tr: "rnd (1000 / 60) = Fin tr"
    and e1: "\<bar>tr - 1000 / 60\<bar> \<le> 1 / 1000000"
    using rnd_near_small [of "1000 / 60"] by blast
  have tr_bounds: "16 \<le> tr" "tr \<le> 17" using e1 by linarith+
  then have "\<bar>tr / 1000\<bar> \<le> 1024" by simp
  then obtain d where d: "rnd (tr / 1000) = Fin d"
    and e2: "\<bar>d - tr / 1000\<bar> \<le> 1 / 1000000"
    using rnd_near_small [of "tr / 1000"] by blast
  have "0 < d" "d \<le> 1" using e2 tr_bounds by linarith+
  moreover have "fdiv TICK_RATE (Fin 1000) = Fin d"
    unfolding TICK_RATE_def using tr d by simp
  ultimately show ?thesis by blast
qed

section \<open>The message handlers\<close>

lemma move_existing:
  assumes "map_of (players s) sid = Some r" and "js_lt (Fin 0) (moveLength dirX dirZ)"
  shows "onMessage_move sid (Some (dirX, dirZ)) s =
     Inr (s\<lparr>heap := (heap s)(r := (heap s r)\<lparr>
            velocityX := fmul (fdiv dirX (moveLength dirX dirZ)) MOVE_SPEED,
            velocityZ := fmul (fdiv dirZ (moveLength dirX dirZ)) MOVE_SPEED,
            state := ''walking'',
            rotation := js_atan2 dirX dirZ\<rparr>)\<rparr>)"
  using assms by (simp add: onMessage_move_def Let_def)

lemma moveLength_zero: "moveLength (Fin 0) (Fin 0) = Fin 0"
  by (simp add: moveLength_def)

lemma move_zero: "onMessage_move sid (Some (Fin 0, Fin 0)) s = Inr s"
  by (simp add: onMessage_move_def moveLength_zero split: option.splits)

lemma moveLength_unit: "moveLength (Fin 1) (Fin 0) = Fin 1"
  by (simp add: moveLength_def)

text \<open>
  A direction can have a positive magnitude and a computed length of 0: the square of
  \<open>2 ^ - 600\<close> is below the least positive double and rounds to 0.
\<close>

lemma moveLength_underflow: "moveLength (Fin (pow2 (- 600))) (Fin 0) = Fin 0"
proof -
  have "pow2 (- 600) * pow2 (- 600) = pow2 (- 1200)" by (rule pow2_split [symmetric]) simp
  moreover have "pow2 (- 1200) < pow2 (- 1075)" by simp
  ultimately have "rnd (pow2 (- 600) * pow2 (- 600)) = Fin 0"
    by (intro rnd_underflow) simp
  then show ?thesis by (simp add: moveLength_def)
qed

lemma move_underflow: "onMessage_move sid (Some (Fin (pow2 (- 600)), Fin 0)) s = Inr s"
  by (simp add: onMessage_move_def moveLength_underflow split: option.splits)

lemma rnd_positive:
  assumes "1 \<le> t" and "t \<le> 1024"
  shows "\<exists>r. rnd t = Fin r \<and> 0 < r"
proof -
  have "\<bar>t\<bar> \<le> 1024" using assms by simp
  then obtain r where "rnd t = Fin r" "\<bar>r - t\<bar> \<le> 1 / 1000000"
    using rnd_near_small by blast
  moreover then have "0 < r" using assms(1) by linarith
  ultimately show ?thesis by blast
qed

lemma quarter_turn: "js_atan2 (Fin 1) (Fin 0) \<noteq> Fin 0"
proof -
  have "1 \<le> pi / 2" "pi / 2 \<le> 1024" using pi_ge_two pi_less_4 by simp_all
  then obtain r where "rnd (pi / 2) = Fin r" "0 < r" using rnd_positive by blast
  then show ?thesis by (simp add: atan2_def)
qed

lemma spawn_center:
  "fmul (fmul (fsub (Fin (1 / 2)) (Fin (1 / 2))) WORLD_SIZE) (rnd (8 / 10)) = Fin 0"
proof -
  have "\<bar>8 / 10 :: real\<bar> \<le> 1024" by simp
  then obtain c where c: "rnd (8 / 10) = Fin c" using rnd_near_small by blast
  have "fmul (Fin 0) (rnd (8 / 10)) = Fin 0" unfolding c by simp
  then show ?thesis by (simp add: fsub_def WORLD_SIZE_def)
qed

lemma demoRoom_eq:
  "demoRoom = \<lparr> players = [(''abcd'', 0)], worldObjects = [], worldTime = Fin 0,
     dayPhase = ''day'',
     heap = (\<lambda>_. new_Player)(0 := new_Player\<lparr>id := ''abcd'', name := ''Player_abcd'',
       x := Fin 0, z := Fin 0, y := Fin 0\<rparr>),
     next_ref = Suc 0, timers = [], clock = 0 \<rparr>"
  unfolding demoRoom_def onJoin_def Let_def spawn_center by (simp add: onCreate_def)

lemma demoRoom_player: "map_of (players demoRoom) ''abcd'' = Some 0"
  by (simp add: demoRoom_eq)

lemma demoRoom_heap:
  "heap demoRoom 0 = new_Player\<lparr>id := ''abcd'', name := ''Player_abcd'',
     x := Fin 0, z := Fin 0, y := Fin 0\<rparr>"
  by (simp add: demoRoom_eq)

lemma walkingRoom_eq:
  "walkingRoom = demoRoom\<lparr>heap := (heap demoRoom)(0 := (heap demoRoom 0)\<lparr>
       velocityX := Fin 5, velocityZ := Fin 0, state := ''walking'',
       rotation := js_atan2 (Fin 1) (Fin 0)\<rparr>)\<rparr>"
proof -
  have g: "js_lt (Fin 0) (moveLength (Fin 1) (Fin 0))" by (simp add: moveLength_unit)
  show ?thesis
    unfolding walkingRoom_def move_existing [OF demoRoom_player g]
    by (simp add: moveLength_unit MOVE_SPEED_def)
qed

lemma walkingRoom_player: "map_of (players walkingRoom) ''abcd'' = Some 0"
  by (simp add: walkingRoom_eq demoRoom_player)

text \<open>
  C3, as the claim states it, fails: a \<open>move\<close> with the zero vector leaves the rotation
  as it was, here the quarter turn set by an earlier \<open>move {dirX: 1, dirZ: 0}\<close>, and not
  at \<open>atan2(0, 0) = 0\<close>.
\<close>

theorem move_zero_keeps_rotation:
  "map_of (players walkingRoom) ''abcd'' = Some 0 \<and>
   onMessage_move ''abcd'' (Some (Fin 0, Fin 0)) walkingRoom = Inr walkingRoom \<and>
   rotation (heap walkingRoom 0) = js_atan2 (Fin 1) (Fin 0) \<and>
   js_atan2 (Fin 0) (Fin 0) = Fin 0 \<and>
   rotation (heap walkingRoom 0) \<noteq> js_atan2 (Fin 0) (Fin 0)"
proof -
  have "js_atan2 (Fin 0) (Fin 0) = Fin 0" by (simp add: atan2_def)
  moreover have "rotation (heap walkingRoom 0) = js_atan2 (Fin 1) (Fin 0)"
    by (simp add: walkingRoom_eq)
  ultimately show ?thesis
    using walkingRoom_player move_zero [of "''abcd''" walkingRoom] quarter_turn by simp
qed

text \<open>
  C3, amended. A \<open>move\<close> whose direction has a computed length
  \<open>Math.sqrt(dirX * dirX + dirZ * dirZ) > 0\<close>, for a session that has a Player, sets the
  Player's rotation to \<open>Math.atan2(dirX, dirZ)\<close>.
\<close>

theorem move_sets_rotation:
  assumes "map_of (players s) sid = Some r" and "js_lt (Fin 0) (moveLength dirX dirZ)"
  shows "\<exists>s'. onMessage_move sid (Some (dirX, dirZ)) s = Inr s' \<and>
           rotation (heap s' r) = js_atan2 dirX dirZ"
  by (simp add: move_existing [OF assms])

theorem move_sets_rotation_witness:
  "map_of (players demoRoom) ''abcd'' = Some 0 \<and>
   js_lt (Fin 0) (moveLength (Fin 1) (Fin 0)) \<and>
   (\<exists>s'. onMessage_move ''abcd'' (Some (Fin 1, Fin 0)) demoRoom = Inr s' \<and>
           rotation (heap s' 0) = js_atan2 (Fin 1) (Fin 0))"
proof -
  have h1: "map_of (players demoRoom) ''abcd'' = Some 0" by (rule demoRoom_player)
  have h2: "js_lt (Fin 0) (moveLength (Fin 1) (Fin 0))" by (simp add: moveLength_unit)
  show ?thesis using h1 h2 move_sets_rotation [OF h1 h2] by blast
qed

text \<open>
  C4, as the claim states it, fails: a \<open>move\<close> with the zero vector leaves an idle Player
  idle.
\<close>

theorem move_zero_stays_idle:
  "map_of (players demoRoom) ''abcd'' = Some 0 \<and>
   onMessage_move ''abcd'' (Some (Fin 0, Fin 0)) demoRoom = Inr demoRoom \<and>
   state (heap demoRoom 0) = ''idle'' \<and>
   state (heap demoRoom 0) \<noteq> ''walking''"
  by (simp add: demoRoom_player move_zero demoRoom_heap new_Player_def)

text \<open>
  C4, amended. A \<open>move\<close> whose direction has a computed length
  \<open>Math.sqrt(dirX * dirX + dirZ * dirZ) > 0\<close>, for a session that has a Player, sets the
  Player's state to \<open>walking\<close>.
\<close>

theorem move_sets_walking:
  assumes "map_of (players s) sid = Some r" and "js_lt (Fin 0) (moveLength dirX dirZ)"
  shows "\<exists>s'. onMessage_move sid (Some (dirX, dirZ)) s = Inr s' \<and>
           state (heap s' r) = ''walking''"
  by (simp add: move_existing [OF assms])

theorem move_sets_walking_witness:
  "map_of (players demoRoom) ''abcd'' = Some 0 \<and>
   js_lt (Fin 0) (moveLength (Fin 1) (Fin 0)) \<and>
   (\<exists>s'. onMessage_move ''abcd'' (Some (Fin 1, Fin 0)) demoRoom = Inr s' \<and>
           state (heap s' 0) = ''walking'')"
proof -
  have h1: "map_of (players demoRoom) ''abcd'' = Some 0" by (rule demoRoom_player)
  have h2: "js_lt (Fin 0) (moveLength (Fin 1) (Fin 0))" by (simp add: moveLength_unit)
  show ?thesis using h1 h2 move_sets_walking [OF h1 h2] by blast
qed

text \<open>
  C7. A \<open>move\<close>, \<open>stop\<close> or \<open>action\<close> message from a session that has no Player returns
  normally and leaves the whole room as it was: the players, the Player objects, the
  world objects, the time, the phase and the pending timeouts. For \<open>move\<close> this holds
  with any payload, also with none, since the handler returns before it reads the payload.
\<close>

theorem message_without_player_dropped:
  "map_of (players s) sid = None \<Longrightarrow> onMessage sid m s = Inr s"
  by (cases m) (simp_all add: onMessage_move_def onMessage_stop_def onMessage_action_def)

theorem message_without_player_dropped_witness:
  "map_of (players demoRoom) ''wxyz'' = None \<and>
   onMessage ''wxyz'' (Move None) demoRoom = Inr demoRoom \<and>
   onMessage ''abcd'' (Move None) demoRoom = Inl TypeError"
proof -
  have h: "map_of (players demoRoom) ''wxyz'' = None" by (simp add: demoRoom_eq)
  have "onMessage ''abcd'' (Move None) demoRoom = Inl TypeError"
    by (simp add: onMessage_move_def demoRoom_player)
  then show ?thesis using h message_without_player_dropped [OF h, of "Move None"] by simp
qed

text \<open>
  C8. For a session that has a Player, one \<open>stop\<close> leaves the velocity at zero and the
  state at \<open>idle\<close>, and a second \<open>stop\<close> changes nothing in the room.
\<close>

theorem stop_idempotent:
  assumes "map_of (players s) sid = Some r"
  shows "velocityX (heap (onMessage_stop sid s) r) = Fin 0 \<and>
         velocityZ (heap (onMessage_stop sid s) r) = Fin 0 \<and>
         state (heap (onMessage_stop sid s) r) = ''idle'' \<and>
         onMessage_stop sid (onMessage_stop sid s) = onMessage_stop sid s"
  using assms by (simp add: onMessage_stop_def)

theorem stop_idempotent_witness:
  "map_of (players walkingRoom) ''abcd'' = Some 0 \<and>
   velocityX (heap walkingRoom 0) = Fin 5 \<and>
   state (heap walkingRoom 0) = ''walking'' \<and>
   velocityX (heap (onMessage_stop ''abcd'' walkingRoom) 0) = Fin 0 \<and>
   velocityZ (heap (onMessage_stop ''abcd'' walkingRoom) 0) = Fin 0 \<and>
   state (heap (onMessage_stop ''abcd'' walkingRoom) 0) = ''idle'' \<and>
   onMessage_stop ''abcd'' (onMessage_stop ''abcd'' walkingRoom) =
     onMessage_stop ''abcd'' walkingRoom"
proof -
  have "velocityX (heap walkingRoom 0) = Fin 5 \<and> state (heap walkingRoom 0) = ''walking''"
    by (simp add: walkingRoom_eq)
  then show ?thesis
    using walkingRoom_player stop_idempotent [OF walkingRoom_player] by simp
qed

text \<open>
  C10. A \<open>move\<close> with \<open>dirX = 0\<close> and \<open>dirZ = 0\<close> returns normally and leaves the room as
  it was, whether the session has a Player or not: the Player's position, velocity,
  rotation and state are the ones it had.
\<close>

theorem move_zero_noop:
  "onMessage_move sid (Some (Fin 0, Fin 0)) s = Inr s"
  by (simp add: onMessage_move_def moveLength_def split: option.splits)

section \<open>The speed after a move\<close>

text \<open>
  The handler rounds five times on the way to a component of the velocity: the two
  squares, their sum, the square root and, for each component, the quotient and the
  product with \<open>MOVE_SPEED\<close>. Each rounding of a result \<open>t\<close> is off by at most
  \<open>\<bar>t\<bar> / 2 ^ 53 + 2 ^ - 1075\<close>. For a direction whose magnitude \<open>m\<close> is between
  \<open>2 ^ - 500\<close> and \<open>2 ^ 501\<close> no square overflows or falls among the subnormal numbers,
  the computed length is within \<open>5 * m / 2 ^ 53\<close> of \<open>m\<close>, and each component within
  \<open>100 / 2 ^ 53\<close> of its exact value.
\<close>

lemma tiny_le_unit: "pow2 (- 1075) \<le> 1 / 2 ^ 60"
  by (rule tiny_small)

lemma tiny_rel:
  assumes "pow2 (- 500) \<le> m"
  shows "pow2 (- 1075) \<le> m / 2 ^ 60" and "pow2 (- 1075) \<le> (m * m) / 2 ^ 60"
proof -
  have m0: "0 < m" using assms pow2_pos [of "- 500"] by linarith
  have a: "pow2 (- 1075) = pow2 (- 500) * pow2 (- 575)" by (rule pow2_split) simp
  have "pow2 (- 575) \<le> pow2 (- 60)" by simp
  also have "pow2 (- 60) = 1 / 2 ^ 60" using pow2_minus [of 60] by simp
  finally have b: "pow2 (- 575) \<le> 1 / 2 ^ 60" .
  have "pow2 (- 500) * pow2 (- 575) \<le> m * (1 / 2 ^ 60)"
    using assms b m0 by (intro mult_mono) simp_all
  then show "pow2 (- 1075) \<le> m / 2 ^ 60" using a by simp
  have c: "pow2 (- 1075) = pow2 (- 1000) * pow2 (- 75)" by (rule pow2_split) simp
  have "pow2 (- 75) \<le> pow2 (- 60)" by simp
  also have "pow2 (- 60) = 1 / 2 ^ 60" using pow2_minus [of 60] by simp
  finally have d: "pow2 (- 75) \<le> 1 / 2 ^ 60" .
  have e: "pow2 (- 1000) = pow2 (- 500) * pow2 (- 500)" by (rule pow2_split) simp
  have "pow2 (- 500) * pow2 (- 500) \<le> m * m" using assms m0 by (intro mult_mono) simp_all
  then have "pow2 (- 1000) * pow2 (- 75) \<le> (m * m) * (1 / 2 ^ 60)"
    using d e m0 by (intro mult_mono) simp_all
  then show "pow2 (- 1075) \<le> (m * m) / 2 ^ 60" using c by simp
qed

lemma norm_bound:
  fixes a b m vx vz d :: real
  assumes m: "0 < m" and mm: "m * m = a * a + b * b"
    and ex: "\<bar>vx - 5 * a / m\<bar> \<le> d" and ez: "\<bar>vz - 5 * b / m\<bar> \<le> d"
  shows "\<bar>sqrt (vx * vx + vz * vz) - 5\<bar> \<le> 2 * d"
proof -
  define V where "V = Complex vx vz"
  define W where "W = Complex (5 * a / m) (5 * b / m)"
  have "(5 * a / m) * (5 * a / m) + (5 * b / m) * (5 * b / m) = 25 * ((a * a + b * b) / (m * m))"
    using m by (simp add: field_simps)
  also have "\<dots> = 5 * 5" using m by (simp add: mm [symmetric])
  finally have "sqrt ((5 * a / m) * (5 * a / m) + (5 * b / m) * (5 * b / m)) = sqrt (5 * 5)"
    by simp
  then have W: "cmod W = 5" by (simp add: W_def cmod_def power2_eq_square)
  have V: "cmod V = sqrt (vx * vx + vz * vz)" by (simp add: V_def cmod_def power2_eq_square)
  have "\<bar>cmod V - cmod W\<bar> \<le> cmod (V - W)" by (rule norm_triangle_ineq3)
  also have "\<dots> \<le> \<bar>Re (V - W)\<bar> + \<bar>Im (V - W)\<bar>" by (rule cmod_le)
  also have "\<dots> \<le> d + d" using ex ez by (simp add: V_def W_def)
  finally show ?thesis by (simp add: V W)
qed

lemma rnd_rel:
  assumes "\<bar>t\<bar> \<le> pow2 1010"
  shows "\<exists>r. rnd t = Fin r \<and> \<bar>r - t\<bar> \<le> \<bar>t\<bar> / 9007199254740992 + pow2 (- 1075)"
  using rnd_near [OF assms] by simp

lemma tiny_rel_num:
  assumes "pow2 (- 500) \<le> m"
  shows "pow2 (- 1075) \<le> m / 1152921504606846976"
    and "pow2 (- 1075) \<le> (m * m) / 1152921504606846976"
  using tiny_rel [OF assms] by simp_all

lemma len_bound:
  fixes a b m :: real
  assumes lo: "pow2 (- 500) \<le> m" and hi: "m \<le> pow2 501" and mm: "m * m = a * a + b * b"
  shows "\<exists>l. moveLength (Fin a) (Fin b) = Fin l \<and> \<bar>l - m\<bar> \<le> m * (5 / 9007199254740992)"
proof -
  define eta where "eta = pow2 (- 1075)"
  define A where "A = a * a"
  define B where "B = b * b"
  define M2 where "M2 = m * m"
  have m0: "0 < m" using lo pow2_pos [of "- 500"] by linarith
  have eta0: "0 \<le> eta" by (simp add: eta_def)
  have eta1: "eta \<le> m / 1152921504606846976" and eta2: "eta \<le> M2 / 1152921504606846976"
    using tiny_rel_num [OF lo] by (simp_all add: eta_def M2_def)
  have A0: "0 \<le> A" and B0: "0 \<le> B" by (simp_all add: A_def B_def)
  have AB: "A + B = M2" by (simp add: A_def B_def M2_def mm)
  have "m * m \<le> pow2 501 * pow2 501" using hi m0 by (intro mult_mono) simp_all
  also have "pow2 501 * pow2 501 = pow2 1002" by (rule pow2_split [symmetric]) simp
  finally have M2hi: "M2 \<le> pow2 1002" by (simp add: M2_def)
  have "pow2 1010 = pow2 8 * pow2 1002" by (rule pow2_split) simp
  moreover have "pow2 8 = 2 ^ 8" using pow2_nat [of 8] by simp
  ultimately have big: "256 * pow2 1002 = pow2 1010" by simp
  have "\<bar>A\<bar> \<le> pow2 1010" using A0 B0 AB M2hi big pow2_pos [of 1002] by linarith
  then obtain s1 where s1: "rnd A = Fin s1"
    and e1: "\<bar>s1 - A\<bar> \<le> \<bar>A\<bar> / 9007199254740992 + eta"
    using rnd_rel unfolding eta_def by blast
  have "\<bar>B\<bar> \<le> pow2 1010" using A0 B0 AB M2hi big pow2_pos [of 1002] by linarith
  then obtain s2 where s2: "rnd B = Fin s2"
    and e2: "\<bar>s2 - B\<bar> \<le> \<bar>B\<bar> / 9007199254740992 + eta"
    using rnd_rel unfolding eta_def by blast
  have M20: "0 < M2" using m0 by (simp add: M2_def)
  have sum: "\<bar>s1 + s2\<bar> \<le> 4 * M2" using e1 e2 A0 B0 AB eta2 M20 by argo
  then have "\<bar>s1 + s2\<bar> \<le> pow2 1010" using M2hi big pow2_pos [of 1002] by linarith
  then obtain S where S: "rnd (s1 + s2) = Fin S"
    and e3: "\<bar>S - (s1 + s2)\<bar> \<le> \<bar>s1 + s2\<bar> / 9007199254740992 + eta"
    using rnd_rel unfolding eta_def by blast
  have a1: "\<bar>A\<bar> = A" and b1: "\<bar>B\<bar> = B" using A0 B0 by simp_all
  have s1b: "s1 \<le> A + A / 9007199254740992 + eta" "A - A / 9007199254740992 - eta \<le> s1"
    using e1 unfolding a1 by argo+
  have s2b: "s2 \<le> B + B / 9007199254740992 + eta" "B - B / 9007199254740992 - eta \<le> s2"
    using e2 unfolding b1 by argo+
  have tb: "s1 + s2 \<le> M2 + M2 / 9007199254740992 + 2 * eta"
    "M2 - M2 / 9007199254740992 - 2 * eta \<le> s1 + s2"
    using s1b s2b AB by argo+
  have t0: "0 \<le> s1 + s2" using tb(2) eta2 M20 by argo
  then have t1: "\<bar>s1 + s2\<bar> = s1 + s2" by simp
  have Sb: "S \<le> (s1 + s2) + (s1 + s2) / 9007199254740992 + eta"
    "(s1 + s2) - (s1 + s2) / 9007199254740992 - eta \<le> S"
    using e3 unfolding t1 by argo+
  have Sup: "S \<le> M2 + 3 * M2 / 9007199254740992"
    using Sb(1) tb(1) eta2 M20 by argo
  have Slo: "M2 - 3 * M2 / 9007199254740992 \<le> S"
    using Sb(2) tb(2) eta2 M20 by argo
  have S0: "0 \<le> S" using Slo M20 by argo
  have len: "moveLength (Fin a) (Fin b) = rnd (sqrt S)"
    using s1 s2 S S0 by (simp add: moveLength_def A_def B_def)
  define c1 :: real where "c1 = 1 + 3 / 9007199254740992"
  define c2 :: real where "c2 = 1 - 3 / 9007199254740992"
  have c1: "1 \<le> c1" "c1 \<le> c1 * c1" by (simp_all add: c1_def)
  have c2: "0 \<le> c2" "c2 * c2 \<le> c2" by (simp_all add: c2_def)
  have "(c1 * m)\<^sup>2 = (c1 * c1) * M2" by (simp add: power2_eq_square M2_def algebra_simps)
  moreover have "c1 * M2 \<le> (c1 * c1) * M2" using c1(2) M20 by (intro mult_right_mono) simp_all
  ultimately have "S \<le> (c1 * m)\<^sup>2" using Sup by (simp add: c1_def algebra_simps)
  moreover have "0 \<le> c1 * m" using c1(1) m0 by simp
  ultimately have qup: "sqrt S \<le> c1 * m" by (intro real_le_lsqrt)
  have "(c2 * m)\<^sup>2 = (c2 * c2) * M2" by (simp add: power2_eq_square M2_def algebra_simps)
  moreover have "(c2 * c2) * M2 \<le> c2 * M2" using c2(2) M20 by (intro mult_right_mono) simp_all
  ultimately have "(c2 * m)\<^sup>2 \<le> S" using Slo by (simp add: c2_def algebra_simps)
  then have qlo: "c2 * m \<le> sqrt S" by (rule real_le_rsqrt)
  have q0: "0 \<le> sqrt S" using S0 by simp
  have "pow2 1010 = pow2 509 * pow2 501" by (rule pow2_split) simp
  moreover have "2 \<le> pow2 509" using pow2_le_iff [of 1 509] by simp
  ultimately have "2 * pow2 501 \<le> pow2 1010" using pow2_pos [of 501]
    by (metis mult_right_mono pow2_nonneg)
  moreover have "c1 * m \<le> 2 * m" using m0 by (simp add: c1_def)
  ultimately have "\<bar>sqrt S\<bar> \<le> pow2 1010" using qup q0 hi m0 by linarith
  then obtain l where l: "rnd (sqrt S) = Fin l"
    and e4: "\<bar>l - sqrt S\<bar> \<le> \<bar>sqrt S\<bar> / 9007199254740992 + eta"
    using rnd_rel unfolding eta_def by blast
  have q1: "\<bar>sqrt S\<bar> = sqrt S" using q0 by simp
  have qup': "sqrt S \<le> m + 3 * m / 9007199254740992" using qup by (simp add: c1_def algebra_simps)
  have qlo': "m - 3 * m / 9007199254740992 \<le> sqrt S" using qlo by (simp add: c2_def algebra_simps)
  have "l - sqrt S \<le> sqrt S / 9007199254740992 + eta" "sqrt S - l \<le> sqrt S / 9007199254740992 + eta"
    using e4 unfolding q1 by argo+
  then have "\<bar>l - m\<bar> \<le> 5 * m / 9007199254740992"
    using qup' qlo' eta1 m0 by argo
  then have "\<bar>l - m\<bar> \<le> m * (5 / 9007199254740992)" by simp
  then show ?thesis using len l by auto
qed


lemma comp_bound:
  fixes c l m :: real
  assumes m0: "0 < m" and cm: "\<bar>c\<bar> \<le> m"
    and lm: "\<bar>l - m\<bar> \<le> m * (5 / 9007199254740992)"
  shows "\<exists>v. fmul (fdiv (Fin c) (Fin l)) MOVE_SPEED = Fin v
    \<and> \<bar>v - 5 * c / m\<bar> \<le> 100 / 9007199254740992"
proof -
  define eta where "eta = pow2 (- 1075)"
  have eta: "eta \<le> 1 / 1152921504606846976" using tiny_le_unit by (simp add: eta_def)
  have "pow2 4 \<le> pow2 1010" by simp
  moreover have "pow2 4 = 2 ^ 4" using pow2_nat [of 4] by simp
  ultimately have big: "16 \<le> pow2 1010" by simp
  have lm': "\<bar>l - m\<bar> \<le> 5 * m / 9007199254740992" using lm by simp
  have l1: "m / 2 \<le> l" using lm' m0 by argo
  have l0: "0 < l" using l1 m0 by argo
  define q where "q = c / l"
  define p where "p = c / m"
  have p1: "\<bar>p\<bar> \<le> 1" using cm m0 by (simp add: p_def)
  have "q - p = c * (m - l) / (l * m)" using l0 m0 by (simp add: q_def p_def field_simps)
  then have "\<bar>q - p\<bar> = (\<bar>c\<bar> * \<bar>m - l\<bar>) / (l * m)" using l0 m0 by (simp add: abs_mult)
  also have "\<dots> \<le> (m * (5 * m / 9007199254740992)) / (m / 2 * m)"
  proof (rule frac_le)
    show "0 \<le> m * (5 * m / 9007199254740992)" using m0 by simp
    have "\<bar>m - l\<bar> \<le> 5 * m / 9007199254740992" using lm' by argo
    then show "\<bar>c\<bar> * \<bar>m - l\<bar> \<le> m * (5 * m / 9007199254740992)"
      using cm m0 by (intro mult_mono) simp_all
    show "0 < m / 2 * m" using m0 by simp
    show "m / 2 * m \<le> l * m" using l1 m0 by (intro mult_right_mono) simp_all
  qed
  also have "\<dots> = 10 / 9007199254740992" using m0 by (simp add: field_simps)
  finally have qp: "\<bar>q - p\<bar> \<le> 10 / 9007199254740992" .
  have "\<bar>q\<bar> \<le> pow2 1010" using qp p1 big by argo
  then obtain w where w: "rnd q = Fin w"
    and ew: "\<bar>w - q\<bar> \<le> \<bar>q\<bar> / 9007199254740992 + eta"
    using rnd_rel unfolding eta_def by blast
  have wp: "\<bar>w - p\<bar> \<le> 13 / 9007199254740992" using ew qp p1 eta by argo
  have "\<bar>w * 5\<bar> \<le> pow2 1010" using wp p1 big by argo
  then obtain v where v: "rnd (w * 5) = Fin v"
    and ev: "\<bar>v - w * 5\<bar> \<le> \<bar>w * 5\<bar> / 9007199254740992 + eta"
    using rnd_rel unfolding eta_def by blast
  have "\<bar>v - 5 * p\<bar> \<le> 100 / 9007199254740992" using ev wp p1 eta by argo
  then have "\<bar>v - 5 * c / m\<bar> \<le> 100 / 9007199254740992" by (simp add: p_def)
  moreover have "fmul (fdiv (Fin c) (Fin l)) MOVE_SPEED = Fin v"
    using l0 w v by (simp add: MOVE_SPEED_def q_def)
  ultimately show ?thesis by blast
qed

lemma move_speed:
  fixes a b :: real
  assumes lo: "pow2 (- 500) \<le> max \<bar>a\<bar> \<bar>b\<bar>" and hi: "max \<bar>a\<bar> \<bar>b\<bar> \<le> pow2 500"
  shows "\<exists>l vx vz. moveLength (Fin a) (Fin b) = Fin l \<and> 0 < l
    \<and> fmul (fdiv (Fin a) (Fin l)) MOVE_SPEED = Fin vx
    \<and> fmul (fdiv (Fin b) (Fin l)) MOVE_SPEED = Fin vz
    \<and> \<bar>sqrt (vx * vx + vz * vz) - 5\<bar> \<le> 200 / 9007199254740992"
proof -
  define m where "m = sqrt (a * a + b * b)"
  have mm: "m * m = a * a + b * b" by (simp add: m_def)
  have am: "\<bar>a\<bar> \<le> m" unfolding m_def by (rule real_le_rsqrt) (simp add: power2_eq_square)
  have bm: "\<bar>b\<bar> \<le> m" unfolding m_def by (rule real_le_rsqrt) (simp add: power2_eq_square)
  have mlo: "pow2 (- 500) \<le> m" using lo am bm by linarith
  have m0: "0 < m" using mlo pow2_pos [of "- 500"] by linarith
  have "m \<le> \<bar>a\<bar> + \<bar>b\<bar>"
    unfolding m_def using sqrt_sum_squares_le_sum_abs [of a b] by (simp add: power2_eq_square)
  moreover have "pow2 501 = pow2 1 * pow2 500" by (rule pow2_split) simp
  then have "pow2 501 = 2 * pow2 500" by simp
  ultimately have mhi: "m \<le> pow2 501" using hi by linarith
  obtain l where l: "moveLength (Fin a) (Fin b) = Fin l"
    and lm: "\<bar>l - m\<bar> \<le> m * (5 / 9007199254740992)"
    using len_bound [OF mlo mhi mm] by blast
  have "\<bar>l - m\<bar> \<le> 5 * m / 9007199254740992" using lm by simp
  then have l0: "0 < l" using m0 by argo
  obtain vx where vx: "fmul (fdiv (Fin a) (Fin l)) MOVE_SPEED = Fin vx"
    and ex: "\<bar>vx - 5 * a / m\<bar> \<le> 100 / 9007199254740992"
    using comp_bound [OF m0 am lm] by blast
  obtain vz where vz: "fmul (fdiv (Fin b) (Fin l)) MOVE_SPEED = Fin vz"
    and ez: "\<bar>vz - 5 * b / m\<bar> \<le> 100 / 9007199254740992"
    using comp_bound [OF m0 bm lm] by blast
  have "\<bar>sqrt (vx * vx + vz * vz) - 5\<bar> \<le> 2 * (100 / 9007199254740992)"
    by (rule norm_bound [OF m0 mm ex ez])
  then have "\<bar>sqrt (vx * vx + vz * vz) - 5\<bar> \<le> 200 / 9007199254740992" by simp
  then show ?thesis using l l0 vx vz by blast
qed


text \<open>
  The square of \<open>2 ^ 600\<close> is above the largest double: the computed length of
  \<open>(2 ^ 600, 0)\<close> is \<open>Infinity\<close>, and a finite number divided by it is 0.
\<close>

lemma moveLength_overflow: "moveLength (Fin (pow2 600)) (Fin 0) = PInf"
proof -
  have "pow2 1200 = pow2 600 * pow2 600" by (rule pow2_split) simp
  moreover have "rnd (pow2 1200) = PInf" by (rule rnd_overflow) simp
  ultimately have "fmul (Fin (pow2 600)) (Fin (pow2 600)) = PInf" by simp
  then show ?thesis by (simp add: moveLength_def)
qed

lemma hugeRoom_eq:
  "hugeRoom = demoRoom\<lparr>heap := (heap demoRoom)(0 := (heap demoRoom 0)\<lparr>
       velocityX := Fin 0, velocityZ := Fin 0, state := ''walking'',
       rotation := js_atan2 (Fin (pow2 600)) (Fin 0)\<rparr>)\<rparr>"
proof -
  have g: "js_lt (Fin 0) (moveLength (Fin (pow2 600)) (Fin 0))"
    by (simp add: moveLength_overflow)
  show ?thesis
    unfolding hugeRoom_def move_existing [OF demoRoom_player g]
    by (simp add: moveLength_overflow MOVE_SPEED_def)
qed

lemma hugeRoom_move:
  "onMessage_move ''abcd'' (Some (Fin (pow2 600), Fin 0)) demoRoom = Inr hugeRoom"
proof -
  have g: "js_lt (Fin 0) (moveLength (Fin (pow2 600)) (Fin 0))"
    by (simp add: moveLength_overflow)
  show ?thesis
    unfolding hugeRoom_def move_existing [OF demoRoom_player g] by simp
qed

text \<open>
  C2, as the claim states it, fails: the direction \<open>(2 ^ 600, 0)\<close> has the magnitude
  \<open>m = 2 ^ 600 > 0\<close> and \<open>(dirX / m, dirZ / m) * MOVE_SPEED = (5, 0)\<close>, but the handler
  computes the length \<open>Infinity\<close> and stores the velocity \<open>(0, 0)\<close>, of magnitude 0, with
  the state \<open>walking\<close>.
\<close>

theorem huge_move_stores_zero_velocity:
  "map_of (players demoRoom) ''abcd'' = Some 0 \<and>
   0 < sqrt (pow2 600 * pow2 600 + 0 * 0) \<and>
   pow2 600 / sqrt (pow2 600 * pow2 600 + 0 * 0) * 5 = 5 \<and>
   MOVE_SPEED = Fin 5 \<and>
   onMessage_move ''abcd'' (Some (Fin (pow2 600), Fin 0)) demoRoom = Inr hugeRoom \<and>
   velocityX (heap hugeRoom 0) = Fin 0 \<and>
   velocityZ (heap hugeRoom 0) = Fin 0 \<and>
   state (heap hugeRoom 0) = ''walking'' \<and>
   sqrt (0 * 0 + 0 * 0) \<noteq> (5 :: real)"
proof -
  have "sqrt (pow2 600 * pow2 600 + 0 * 0) = pow2 600" by simp
  then show ?thesis
    using demoRoom_player hugeRoom_move by (simp add: hugeRoom_eq MOVE_SPEED_def)
qed

text \<open>
  C2, amended. A \<open>move\<close> for a session that has a Player, whose direction has a computed
  length \<open>len = Math.sqrt(dirX * dirX + dirZ * dirZ) > 0\<close>, sets the Player's velocity
  to \<open>((dirX / len) * MOVE_SPEED, (dirZ / len) * MOVE_SPEED)\<close> in double arithmetic. When
  \<open>dirX\<close> and \<open>dirZ\<close> are finite and the larger of \<open>|dirX|\<close> and \<open>|dirZ|\<close> lies between
  \<open>2 ^ - 500\<close> and \<open>2 ^ 500\<close>, the handler takes that branch and the stored velocity
  is finite, with a magnitude within \<open>200 / 2 ^ 53\<close> of \<open>MOVE_SPEED\<close>.
\<close>

theorem move_sets_velocity:
  assumes "map_of (players s) sid = Some r"
  shows "(js_lt (Fin 0) (moveLength dirX dirZ) \<longrightarrow>
           (\<exists>s'. onMessage_move sid (Some (dirX, dirZ)) s = Inr s' \<and>
              velocityX (heap s' r) = fmul (fdiv dirX (moveLength dirX dirZ)) MOVE_SPEED \<and>
              velocityZ (heap s' r) = fmul (fdiv dirZ (moveLength dirX dirZ)) MOVE_SPEED)) \<and>
         (pow2 (- 500) \<le> max \<bar>a\<bar> \<bar>b\<bar> \<and> max \<bar>a\<bar> \<bar>b\<bar> \<le> pow2 500 \<longrightarrow>
           (\<exists>s' vx vz v. onMessage_move sid (Some (Fin a, Fin b)) s = Inr s' \<and>
              velocityX (heap s' r) = Fin vx \<and> velocityZ (heap s' r) = Fin vz \<and>
              MOVE_SPEED = Fin v \<and>
              \<bar>sqrt (vx * vx + vz * vz) - v\<bar> \<le> 200 / 2 ^ 53))"
proof (intro conjI impI)
  assume g: "js_lt (Fin 0) (moveLength dirX dirZ)"
  show "\<exists>s'. onMessage_move sid (Some (dirX, dirZ)) s = Inr s' \<and>
      velocityX (heap s' r) = fmul (fdiv dirX (moveLength dirX dirZ)) MOVE_SPEED \<and>
      velocityZ (heap s' r) = fmul (fdiv dirZ (moveLength dirX dirZ)) MOVE_SPEED"
    by (simp add: move_existing [OF assms g])
next
  assume range: "pow2 (- 500) \<le> max \<bar>a\<bar> \<bar>b\<bar> \<and> max \<bar>a\<bar> \<bar>b\<bar> \<le> pow2 500"
  obtain l vx vz where l: "moveLength (Fin a) (Fin b) = Fin l" and l0: "0 < l"
    and vx: "fmul (fdiv (Fin a) (Fin l)) MOVE_SPEED = Fin vx"
    and vz: "fmul (fdiv (Fin b) (Fin l)) MOVE_SPEED = Fin vz"
    and e: "\<bar>sqrt (vx * vx + vz * vz) - 5\<bar> \<le> 200 / 9007199254740992"
    using move_speed [of a b] range by blast
  have g: "js_lt (Fin 0) (moveLength (Fin a) (Fin b))" using l l0 by simp
  have "velocityX (heap (s\<lparr>heap := (heap s)(r := (heap s r)\<lparr>
            velocityX := fmul (fdiv (Fin a) (moveLength (Fin a) (Fin b))) MOVE_SPEED,
            velocityZ := fmul (fdiv (Fin b) (moveLength (Fin a) (Fin b))) MOVE_SPEED,
            state := ''walking'',
            rotation := js_atan2 (Fin a) (Fin b)\<rparr>)\<rparr>) r) = Fin vx"
    unfolding l vx by simp
  moreover have "velocityZ (heap (s\<lparr>heap := (heap s)(r := (heap s r)\<lparr>
            velocityX := fmul (fdiv (Fin a) (moveLength (Fin a) (Fin b))) MOVE_SPEED,
            velocityZ := fmul (fdiv (Fin b) (moveLength (Fin a) (Fin b))) MOVE_SPEED,
            state := ''walking'',
            rotation := js_atan2 (Fin a) (Fin b)\<rparr>)\<rparr>) r) = Fin vz"
    unfolding l vz by simp
  moreover have "MOVE_SPEED = Fin 5" by (simp add: MOVE_SPEED_def)
  moreover have "\<bar>sqrt (vx * vx + vz * vz) - 5\<bar> \<le> 200 / 2 ^ 53" using e by simp
  ultimately show "\<exists>s' vx vz v. onMessage_move sid (Some (Fin a, Fin b)) s = Inr s' \<and>
      velocityX (heap s' r) = Fin vx \<and> velocityZ (heap s' r) = Fin vz \<and>
      MOVE_SPEED = Fin v \<and>
      \<bar>sqrt (vx * vx + vz * vz) - v\<bar> \<le> 200 / 2 ^ 53"
    unfolding move_existing [OF assms g] by blast
qed

theorem move_sets_velocity_witness:
  "map_of (players demoRoom) ''abcd'' = Some 0 \<and>
   js_lt (Fin 0) (moveLength (Fin 1) (Fin 0)) \<and>
   (\<exists>s'. onMessage_move ''abcd'' (Some (Fin 1, Fin 0)) demoRoom = Inr s' \<and>
      velocityX (heap s' 0) = fmul (fdiv (Fin 1) (moveLength (Fin 1) (Fin 0))) MOVE_SPEED \<and>
      velocityZ (heap s' 0) = fmul (fdiv (Fin 0) (moveLength (Fin 1) (Fin 0))) MOVE_SPEED) \<and>
   pow2 (- 500) \<le> max \<bar>3\<bar> \<bar>- 4 :: real\<bar> \<and>
   max \<bar>3\<bar> \<bar>- 4 :: real\<bar> \<le> pow2 500 \<and>
   (\<exists>s' vx vz v. onMessage_move ''abcd'' (Some (Fin 3, Fin (- 4))) demoRoom = Inr s' \<and>
      velocityX (heap s' 0) = Fin vx \<and> velocityZ (heap s' 0) = Fin vz \<and>
      MOVE_SPEED = Fin v \<and>
      \<bar>sqrt (vx * vx + vz * vz) - v\<bar> \<le> 200 / 2 ^ 53)"
proof -
  have h1: "map_of (players demoRoom) ''abcd'' = Some 0" by (rule demoRoom_player)
  have h2: "js_lt (Fin 0) (moveLength (Fin 1) (Fin 0))" by (simp add: moveLength_unit)
  have "pow2 (- 500) \<le> pow2 2" and "pow2 2 \<le> pow2 500" by simp_all
  moreover have "pow2 2 = 2 ^ 2" using pow2_nat [of 2] by simp
  ultimately have h3: "pow2 (- 500) \<le> max \<bar>3\<bar> \<bar>- 4 :: real\<bar>"
    and h4: "max \<bar>3\<bar> \<bar>- 4 :: real\<bar> \<le> pow2 500" by simp_all
  note t = move_sets_velocity [OF h1, of "Fin 1" "Fin 0" 3 "- 4"]
  show ?thesis using h1 h2 h3 h4 t by blast
qed

section \<open>The tick\<close>


lemma clamp_NaN: "js_max (fneg (Fin 25)) (js_min (Fin 25) NaN) = NaN"
  by simp


lemma movePlayer_velocity:
  "velocityX (movePlayer dt p) = velocityX p \<and> velocityZ (movePlayer dt p) = velocityZ p"
  by (simp add: movePlayer_def Let_def)


lemma movePlayer_state: "state (movePlayer dt p) = state p"
  by (simp add: movePlayer_def Let_def)

lemma fold_heap_preserves:
  assumes "\<And>p. P p \<Longrightarrow> P (f p)" and "P (h a)"
  shows "P ((fold (\<lambda>(sessionId, r) h. h(r := f (h r))) ps h) a)"
  using assms(2)
proof (induction ps arbitrary: h)
  case Nil
  then show ?case by simp
next
  case (Cons q ps)
  obtain k r where q: "q = (k, r)" by (cases q)
  have "P ((h(r := f (h r))) a)" using Cons.prems assms(1) by auto
  then have "P ((fold (\<lambda>(sessionId, r) h. h(r := f (h r))) ps (h(r := f (h r)))) a)"
    by (rule Cons.IH)
  then show ?case by (simp only: q fold_simps prod.case)
qed

lemma heap_update:
  "heap (update s) =
   fold (\<lambda>(sessionId, r) h. h(r := movePlayer (fdiv TICK_RATE (Fin 1000)) (h r)))
     (players s) (heap s)"
  by (simp add: update_def Let_def)


lemma update_state: "state (heap (update s) a) = state (heap s a)"
  unfolding heap_update
  by (rule fold_heap_preserves [where P = "\<lambda>p. state p = state (heap s a)"])
     (simp_all add: movePlayer_state)









lemma reachable_run: "reachable s \<Longrightarrow> run es s = Some s' \<Longrightarrow> reachable s'"
proof (induction es arbitrary: s)
  case Nil
  then show ?case by simp
next
  case (Cons e es)
  then show ?case by (auto split: option.splits intro: reachable.stepped)
qed

lemma walkingRoom_run:
  "run [Join ''abcd'' None (1 / 2) (1 / 2), Message ''abcd'' (Move (Some (Fin 1, Fin 0)))]
     (onCreate [])
   = Some walkingRoom"
proof -
  have g: "js_lt (Fin 0) (moveLength (Fin 1) (Fin 0))" by (simp add: moveLength_unit)
  show ?thesis
    by (simp add: walkingRoom_def demoRoom_def [symmetric] move_existing [OF demoRoom_player g])
qed

lemma walkingRoom_reachable: "reachable walkingRoom"
  using reachable_run [OF reachable.created walkingRoom_run] .







section \<open>The clock\<close>

lemma js_rem_nonneg: "0 \<le> a \<Longrightarrow> js_rem (Fin a) (Fin 480) = Fin (real_mod a 480)"
  by (simp add: real_mod_def js_trunc_def)

lemma clock_advance:
  assumes "0 \<le> w" and "w \<le> pow2 1024 - pow2 971" and "0 < d" and "d \<le> 1"
  shows "\<exists>w'. fadd (Fin w) (Fin d) = Fin w' \<and> 0 \<le> w' \<and> w' \<le> pow2 1024 - pow2 971"
proof -
  have "pow2 0 < pow2 970" by (simp only: pow2_less_iff)
  then have one: "1 < pow2 970" by simp
  have "pow2 971 = 2 * pow2 970" using pow2_Suc [of 970] by simp
  then have "\<bar>w + d\<bar> < pow2 1024 - pow2 970" using assms one by linarith
  then obtain w' where w': "rnd (w + d) = Fin w'" using rnd_error by blast
  have "0 \<le> w + d" using assms by simp
  then have "0 \<le> w' \<and> w' \<le> pow2 1024 - pow2 971" using rnd_nonneg [of "w + d"] w' by auto
  then show ?thesis using w' by simp
qed

lemma update_worldTime:
  assumes "worldTime s = Fin w" and "0 \<le> w" and "w \<le> pow2 1024 - pow2 971"
  shows "\<exists>w'. worldTime (update s) = Fin w' \<and> 0 \<le> w' \<and> w' \<le> pow2 1024 - pow2 971 \<and>
           dayPhase (update s) = spec_dayPhase 480 w'"
proof -
  obtain d where d: "fdiv TICK_RATE (Fin 1000) = Fin d" "0 < d" "d \<le> 1"
    using deltaTime by blast
  obtain w' where w': "fadd (Fin w) (Fin d) = Fin w'" "0 \<le> w'" "w' \<le> pow2 1024 - pow2 971"
    using clock_advance [OF assms(2,3) d(2,3)] by blast
  have wt: "worldTime (update s) = Fin w'"
    unfolding update_def Let_def d(1) assms(1) w'(1) by simp
  have "dayPhase (update s) = spec_dayPhase 480 w'"
    unfolding update_def Let_def d(1) assms(1) w'(1) js_rem_nonneg [OF w'(2)]
    by (simp add: spec_dayPhase_def Let_def)
  then show ?thesis using wt w'(2,3) by blast
qed

lemma step_worldTime:
  assumes "step e s = Some s'"
    and "\<exists>w. worldTime s = Fin w \<and> 0 \<le> w \<and> w \<le> pow2 1024 - pow2 971"
  shows "\<exists>w. worldTime s' = Fin w \<and> 0 \<le> w \<and> w \<le> pow2 1024 - pow2 971"
proof (cases e)
  case (Message sid m)
  then show ?thesis using assms
    by (cases m)
       (auto simp: onMessage_move_def onMessage_stop_def onMessage_action_def Let_def
          split: option.splits sum.splits if_splits)
next
  case Tick
  then have "s' = update s" using assms(1) by simp
  then show ?thesis using assms(2) update_worldTime [of s] by blast
next
  case FireTimer
  then show ?thesis using assms by (auto simp: fireTimer_def split: list.splits if_splits)
qed (use assms in \<open>auto simp: onJoin_def Let_def onLeave_def elapse_def split: if_splits\<close>)

lemma reachable_worldTime:
  "reachable s \<Longrightarrow> \<exists>w. worldTime s = Fin w \<and> 0 \<le> w \<and> w \<le> pow2 1024 - pow2 971"
proof (induction rule: reachable.induct)
  case (created wos)
  have "pow2 971 \<le> pow2 1024" by simp
  then show ?case by (simp add: onCreate_def)
next
  case (stepped s e s')
  then show ?case using step_worldTime by blast
qed

text \<open>
  C5. In every room that a run reaches, the time after a tick is a finite number, and
  the phase after the tick is the one the design derives from that time, with a day of
  480 seconds: day below \<open>0.5 * 480\<close>, dusk below \<open>0.625 * 480\<close>, night otherwise, of
  the time modulo 480.
\<close>

theorem tick_sets_dayPhase:
  "reachable s \<Longrightarrow>
   \<exists>w. worldTime (update s) = Fin w \<and> 0 \<le> w \<and> dayPhase (update s) = spec_dayPhase 480 w"
proof -
  assume "reachable s"
  then obtain w where "worldTime s = Fin w" "0 \<le> w" "w \<le> pow2 1024 - pow2 971"
    using reachable_worldTime by blast
  then show ?thesis using update_worldTime [of s w] by blast
qed

theorem tick_sets_dayPhase_witness:
  "reachable (onCreate []) \<and>
   (\<exists>w. worldTime (update (onCreate [])) = Fin w \<and> 0 \<le> w \<and>
         dayPhase (update (onCreate [])) = spec_dayPhase 480 w) \<and>
   dayPhase (update (onCreate [])) = ''day''"
proof -
  have r: "reachable (onCreate [])" by (rule reachable.created)
  obtain d where d: "fdiv TICK_RATE (Fin 1000) = Fin d" "0 < d" "d \<le> 1"
    using deltaTime by blast
  have "\<bar>d\<bar> \<le> 1024" using d by simp
  then obtain w where w: "rnd d = Fin w" "\<bar>w - d\<bar> \<le> 1 / 1000000"
    using rnd_near_small by blast
  have w2: "w < 2" using w(2) d(3) by linarith
  have w0: "0 \<le> w" using rnd_nonneg [of d] d(2) w(1) by auto
  have "\<lfloor>w / 480\<rfloor> = 0" using w0 w2 by (simp add: floor_eq_iff)
  then have "js_rem (Fin w) (Fin 480) = Fin w" using w0 by (simp add: js_trunc_def)
  then have "dayPhase (update (onCreate [])) = ''day''"
    unfolding update_def Let_def d(1) using w(1) w2 by (simp add: onCreate_def)
  then show ?thesis using r tick_sets_dayPhase [OF r] by blast
qed

section \<open>The timeout of an action\<close>

lemma players_update [simp]: "players (update s) = players s"
  by (simp add: update_def Let_def)

lemma next_ref_update [simp]: "next_ref (update s) = next_ref s"
  by (simp add: update_def Let_def)

lemma revert_other: "state p \<noteq> ''action'' \<Longrightarrow> revert p = p"
  by (simp add: revert_def)

lemma step_keeps_state:
  assumes wf: "wellFormed s" and r: "r < next_ref s"
    and only: "\<forall>k. map_of (players s) k = Some r \<longrightarrow> k = sid"
    and st: "state (heap s r) \<noteq> ''action''"
    and other: "\<not> own_message sid e"
    and step: "step e s = Some s'"
  shows "wellFormed s' \<and> r < next_ref s' \<and>
         (\<forall>k. map_of (players s') k = Some r \<longrightarrow> k = sid) \<and>
         state (heap s' r) = state (heap s r)"
proof (cases e)
  case (Join k n rx rz)
  then have s': "s' = onJoin k n (Fin rx) (Fin rz) s" using step by (auto split: if_splits)
  have m: "map_of (players s') = (map_of (players s))(k \<mapsto> next_ref s)"
    by (simp add: s' onJoin_def Let_def update_conv')
  have n: "next_ref s' = Suc (next_ref s)" by (simp add: s' onJoin_def Let_def)
  have h: "heap s' r = heap s r" using r by (simp add: s' onJoin_def Let_def)
  have "wellFormed s'"
    using wf unfolding wellFormed_def m n
    by (auto simp: less_Suc_eq split: if_splits)
  moreover have "\<forall>k'. map_of (players s') k' = Some r \<longrightarrow> k' = sid"
    using only r unfolding m by (auto split: if_splits)
  ultimately show ?thesis using r n h by simp
next
  case (Leave k)
  then have s': "s' = onLeave k s" using step by simp
  have m: "map_of (players s') = (map_of (players s))(k := None)"
    by (simp add: s' onLeave_def delete_conv')
  have "wellFormed s'"
    using wf unfolding wellFormed_def m by (auto simp: s' onLeave_def split: if_splits)
  moreover have "\<forall>k'. map_of (players s') k' = Some r \<longrightarrow> k' = sid"
    using only unfolding m by (auto split: if_splits)
  ultimately show ?thesis using r by (simp add: s' onLeave_def)
next
  case (Message k m)
  then have k: "k \<noteq> sid" using other by (simp add: own_message_def)
  have nr: "map_of (players s) k \<noteq> Some r" using only k by blast
  have "players s' = players s \<and> next_ref s' = next_ref s \<and> heap s' r = heap s r"
    using step Message nr
    by (cases m)
       (auto simp: onMessage_move_def onMessage_stop_def onMessage_action_def Let_def
          split: option.splits sum.splits if_splits)
  then show ?thesis using wf r only by (simp add: wellFormed_def)
next
  case Tick
  then have s': "s' = update s" using step by simp
  show ?thesis using wf r only by (simp add: s' wellFormed_def update_state)
next
  case (Elapse ms)
  then have s': "s' = elapse ms s" using step by simp
  show ?thesis using wf r only by (simp add: s' wellFormed_def elapse_def)
next
  case FireTimer
  then have s': "s' = fireTimer s" using step by simp
  have "players s' = players s \<and> next_ref s' = next_ref s \<and> heap s' r = heap s r"
    using st by (auto simp: s' fireTimer_def revert_other split: list.splits)
  then show ?thesis using wf r only by (simp add: wellFormed_def)
qed

lemma run_keeps_state:
  assumes "wellFormed s" and "r < next_ref s"
    and "\<forall>k. map_of (players s) k = Some r \<longrightarrow> k = sid"
    and "state (heap s r) \<noteq> ''action''"
    and "\<forall>e\<in>set es. \<not> own_message sid e"
    and "run es s = Some s'"
  shows "state (heap s' r) = state (heap s r)"
  using assms
proof (induction es arbitrary: s)
  case Nil
  then show ?case by simp
next
  case (Cons e es)
  from Cons.prems(6) obtain s1 where s1: "step e s = Some s1" and rest: "run es s1 = Some s'"
    by (auto split: option.splits)
  have e: "\<not> own_message sid e" using Cons.prems(5) by simp
  note k = step_keeps_state [OF Cons.prems(1-4) e s1]
  have "state (heap s' r) = state (heap s1 r)"
    using Cons.IH [of s1] k Cons.prems(4,5) rest by simp
  then show ?case using k by simp
qed

lemma step_wellFormed:
  assumes "wellFormed s" and "step e s = Some s'"
  shows "wellFormed s'"
proof (cases e)
  case (Join k n rx rz)
  then have s': "s' = onJoin k n (Fin rx) (Fin rz) s" using assms by (auto split: if_splits)
  have m: "map_of (players s') = (map_of (players s))(k \<mapsto> next_ref s)"
    by (simp add: s' onJoin_def Let_def update_conv')
  have n: "next_ref s' = Suc (next_ref s)" by (simp add: s' onJoin_def Let_def)
  show ?thesis
    using assms(1) unfolding wellFormed_def m n
    by (auto simp: less_Suc_eq split: if_splits)
next
  case (Leave k)
  then have s': "s' = onLeave k s" using assms by simp
  have m: "map_of (players s') = (map_of (players s))(k := None)"
    by (simp add: s' onLeave_def delete_conv')
  show ?thesis
    using assms(1) unfolding wellFormed_def m by (auto simp: s' onLeave_def split: if_splits)
next
  case (Message k m)
  have "players s' = players s \<and> next_ref s' = next_ref s"
    using assms Message
    by (cases m)
       (auto simp: onMessage_move_def onMessage_stop_def onMessage_action_def Let_def
          split: option.splits sum.splits if_splits)
  then show ?thesis using assms(1) by (simp add: wellFormed_def)
next
  case Tick
  then show ?thesis using assms by (auto simp: wellFormed_def)
next
  case (Elapse ms)
  then show ?thesis using assms by (auto simp: wellFormed_def elapse_def)
next
  case FireTimer
  then have "players s' = players s \<and> next_ref s' = next_ref s"
    using assms by (auto simp: fireTimer_def split: list.splits prod.splits if_splits)
  then show ?thesis using assms(1) by (simp add: wellFormed_def)
qed

lemma reachable_wellFormed: "reachable s \<Longrightarrow> wellFormed s"
proof (induction rule: reachable.induct)
  case (created wos)
  show ?case by (simp add: wellFormed_def onCreate_def)
next
  case (stepped s e s')
  then show ?case using step_wellFormed by blast
qed

lemma action_existing:
  "map_of (players s) sid = Some r \<Longrightarrow>
   onMessage_action sid s =
     s\<lparr>heap := (heap s)(r := (heap s r)\<lparr>state := ''action''\<rparr>),
       timers := timers s @ [(clock s + 500, r)]\<rparr>"
  by (simp add: onMessage_action_def)

lemma fireTimer_due:
  "timers s = (due, r) # rest \<Longrightarrow> due \<le> clock s \<Longrightarrow>
   fireTimer s = s\<lparr>heap := (heap s)(r := revert (heap s r)), timers := rest\<rparr>"
  by (simp add: fireTimer_def)

text \<open>
  C6, amended. An \<open>action\<close> for a session that has a Player sets the state to \<open>action\<close>
  at once and queues a timeout due 500 ms later. The timeout does not run before it is
  due; when it runs it sets the state to \<open>idle\<close> if the state is \<open>action\<close>, and leaves
  any other state. So a state other than \<open>action\<close> that a Player has in a reachable room
  survives every run of events that holds no message of its own session: timeouts, time
  passing, ticks, joins, leaves and the messages of other sessions.
\<close>

theorem action_revert_guarded:
  "(map_of (players s) sid = Some r \<longrightarrow>
      state (heap (onMessage_action sid s) r) = ''action'' \<and>
      timers (onMessage_action sid s) = timers s @ [(clock s + 500, r)]) \<and>
   (timers v = (due', r) # rest' \<longrightarrow> clock v < due' \<longrightarrow> fireTimer v = v) \<and>
   (timers t = (due, r) # rest \<longrightarrow> due \<le> clock t \<longrightarrow>
      state (heap (fireTimer t) r) =
        (if state (heap t r) = ''action'' then ''idle'' else state (heap t r))) \<and>
   (reachable u \<longrightarrow> map_of (players u) sid = Some r \<longrightarrow> state (heap u r) \<noteq> ''action'' \<longrightarrow>
      (\<forall>e\<in>set es. \<not> own_message sid e) \<longrightarrow> run es u = Some u' \<longrightarrow>
      state (heap u' r) = state (heap u r))"
proof (intro conjI impI)
  assume "map_of (players s) sid = Some r"
  then show "state (heap (onMessage_action sid s) r) = ''action''"
    and "timers (onMessage_action sid s) = timers s @ [(clock s + 500, r)]"
    by (simp_all add: action_existing)
next
  assume "timers v = (due', r) # rest'" and "clock v < due'"
  then show "fireTimer v = v" by (simp add: fireTimer_def)
next
  assume "timers t = (due, r) # rest" and "due \<le> clock t"
  then show "state (heap (fireTimer t) r) =
        (if state (heap t r) = ''action'' then ''idle'' else state (heap t r))"
    by (simp add: fireTimer_due revert_def)
next
  assume reach: "reachable u" and pl: "map_of (players u) sid = Some r"
    and st: "state (heap u r) \<noteq> ''action''"
    and es: "\<forall>e\<in>set es. \<not> own_message sid e" and run: "run es u = Some u'"
  have wf: "wellFormed u" using reach by (rule reachable_wellFormed)
  have r: "r < next_ref u" using wf pl by (auto simp: wellFormed_def)
  have only: "\<forall>k. map_of (players u) k = Some r \<longrightarrow> k = sid"
    using wf pl by (auto simp: wellFormed_def)
  show "state (heap u' r) = state (heap u r)"
    using run_keeps_state [OF wf r only st es run] .
qed

lemma actionRoom_eq:
  "actionRoom = demoRoom\<lparr>heap := (heap demoRoom)(0 := (heap demoRoom 0)\<lparr>state := ''action''\<rparr>),
       timers := [(500, 0)]\<rparr>"
  by (simp add: actionRoom_def action_existing [OF demoRoom_player])
     (simp add: demoRoom_eq)

lemma supersededRoom_eq:
  "supersededRoom = demoRoom\<lparr>heap := (heap demoRoom)(0 := (heap demoRoom 0)\<lparr>
       velocityX := Fin 5, velocityZ := Fin 0, state := ''walking'',
       rotation := js_atan2 (Fin 1) (Fin 0)\<rparr>),
       timers := [(500, 0)], clock := 100\<rparr>"
proof -
  have p: "map_of (players (elapse 100 actionRoom)) ''abcd'' = Some 0"
    by (simp add: elapse_def actionRoom_eq demoRoom_player)
  have g: "js_lt (Fin 0) (moveLength (Fin 1) (Fin 0))" by (simp add: moveLength_unit)
  have c: "clock demoRoom = 0" by (simp add: demoRoom_eq)
  show ?thesis
    unfolding supersededRoom_def move_existing [OF p g]
    by (simp add: moveLength_unit MOVE_SPEED_def)
       (simp add: elapse_def actionRoom_eq c)
qed

lemma supersededRoom_run:
  "run [Join ''abcd'' None (1 / 2) (1 / 2), Message ''abcd'' Action, Elapse 100,
        Message ''abcd'' (Move (Some (Fin 1, Fin 0)))] (onCreate [])
   = Some supersededRoom"
proof -
  have p: "map_of (players (elapse 100 actionRoom)) ''abcd'' = Some 0"
    by (simp add: elapse_def actionRoom_eq demoRoom_player)
  have g: "js_lt (Fin 0) (moveLength (Fin 1) (Fin 0))" by (simp add: moveLength_unit)
  show ?thesis
    by (simp add: supersededRoom_def demoRoom_def [symmetric] actionRoom_def [symmetric]
          move_existing [OF p g])
qed

lemma supersededRoom_reachable: "reachable supersededRoom"
  using reachable_run [OF reachable.created supersededRoom_run] .

theorem action_revert_guarded_witness:
  "map_of (players demoRoom) ''abcd'' = Some 0 \<and>
   state (heap (onMessage_action ''abcd'' demoRoom) 0) = ''action'' \<and>
   timers (onMessage_action ''abcd'' demoRoom) = timers demoRoom @ [(clock demoRoom + 500, 0)] \<and>
   timers actionRoom = (500, 0) # [] \<and> clock actionRoom < 500 \<and>
   fireTimer actionRoom = actionRoom \<and>
   timers dueRoom = (500, 0) # [] \<and> 500 \<le> clock dueRoom \<and>
   state (heap dueRoom 0) = ''action'' \<and>
   state (heap (fireTimer dueRoom) 0) = ''idle'' \<and>
   reachable supersededRoom \<and> map_of (players supersededRoom) ''abcd'' = Some 0 \<and>
   state (heap supersededRoom 0) = ''walking'' \<and>
   \<not> own_message ''abcd'' (Elapse 400) \<and> \<not> own_message ''abcd'' FireTimer \<and>
   \<not> own_message ''abcd'' Tick \<and>
   run [Elapse 400, FireTimer, Tick] supersededRoom =
     Some (update (fireTimer (elapse 400 supersededRoom))) \<and>
   timers (update (fireTimer (elapse 400 supersededRoom))) = [] \<and>
   state (heap (update (fireTimer (elapse 400 supersededRoom))) 0) = ''walking''"
proof -
  have a: "map_of (players demoRoom) ''abcd'' = Some 0" by (rule demoRoom_player)
  have b: "timers dueRoom = (500, 0) # []" "500 \<le> clock dueRoom"
    "state (heap dueRoom 0) = ''action''"
    by (simp_all add: dueRoom_def elapse_def actionRoom_eq)
  have b': "timers actionRoom = (500, 0) # []" "clock actionRoom < 500"
    by (simp_all add: actionRoom_eq demoRoom_eq)
  have c: "map_of (players supersededRoom) ''abcd'' = Some 0"
    "state (heap supersededRoom 0) = ''walking''"
    by (simp_all add: supersededRoom_eq demoRoom_player)
  have d: "\<forall>e\<in>set [Elapse 400, FireTimer, Tick]. \<not> own_message ''abcd'' e"
    by (simp add: own_message_def)
  have e: "run [Elapse 400, FireTimer, Tick] supersededRoom =
     Some (update (fireTimer (elapse 400 supersededRoom)))"
    by simp
  have f: "timers (update (fireTimer (elapse 400 supersededRoom))) = []"
    by (simp add: update_def Let_def fireTimer_def elapse_def supersededRoom_eq)
  show ?thesis
    using action_revert_guarded [of demoRoom "''abcd''" 0 actionRoom 500 "[]" dueRoom 500 "[]"
        supersededRoom "[Elapse 400, FireTimer, Tick]"
        "update (fireTimer (elapse 400 supersededRoom))"]
      a b b' c d e f supersededRoom_reachable
    by simp
qed

lemma secondActionRoom_run:
  "run [Join ''abcd'' None (1 / 2) (1 / 2), Message ''abcd'' Action, Elapse 100,
        Message ''abcd'' (Move (Some (Fin 1, Fin 0))), Elapse 300, Message ''abcd'' Action,
        Elapse 100] (onCreate [])
   = Some secondActionRoom"
proof -
  have p: "map_of (players (elapse 100 actionRoom)) ''abcd'' = Some 0"
    by (simp add: elapse_def actionRoom_eq demoRoom_player)
  have g: "js_lt (Fin 0) (moveLength (Fin 1) (Fin 0))" by (simp add: moveLength_unit)
  show ?thesis
    by (simp add: secondActionRoom_def supersededRoom_def demoRoom_def [symmetric]
          actionRoom_def [symmetric] move_existing [OF p g])
qed

text \<open>
  C6, as the claim states it, fails. \<open>abcd\<close> sends \<open>action\<close> at time 0, \<open>move\<close> at
  time 100 and \<open>action\<close> again at time 400. At time 500 the timeout of the first
  \<open>action\<close> is due, finds the state \<open>action\<close> that the second one set 100 ms earlier, and
  overwrites it with \<open>idle\<close>; the timeout of the second \<open>action\<close> is still pending.
\<close>

theorem stale_timer_reverts_later_action:
  "run [Join ''abcd'' None (1 / 2) (1 / 2), Message ''abcd'' Action, Elapse 100,
        Message ''abcd'' (Move (Some (Fin 1, Fin 0))), Elapse 300, Message ''abcd'' Action,
        Elapse 100] (onCreate [])
   = Some secondActionRoom \<and>
   map_of (players secondActionRoom) ''abcd'' = Some 0 \<and>
   clock secondActionRoom = 500 \<and>
   timers secondActionRoom = [(500, 0), (900, 0)] \<and>
   state (heap (elapse 300 supersededRoom) 0) = ''walking'' \<and>
   state (heap secondActionRoom 0) = ''action'' \<and>
   state (heap (fireTimer secondActionRoom) 0) = ''idle'' \<and>
   timers (fireTimer secondActionRoom) = [(900, 0)]"
proof -
  have p: "map_of (players (elapse 300 supersededRoom)) ''abcd'' = Some 0"
    by (simp add: elapse_def supersededRoom_eq demoRoom_player)
  have eq: "secondActionRoom = demoRoom\<lparr>heap := (heap demoRoom)(0 := (heap demoRoom 0)\<lparr>
       velocityX := Fin 5, velocityZ := Fin 0,
       rotation := js_atan2 (Fin 1) (Fin 0), state := ''action''\<rparr>),
       timers := [(500, 0), (900, 0)], clock := 500\<rparr>"
    by (simp add: secondActionRoom_def action_existing [OF p])
       (simp add: elapse_def supersededRoom_eq)
  show ?thesis
    by (rule conjI [OF secondActionRoom_run])
       (simp add: eq fireTimer_def revert_def demoRoom_player elapse_def supersededRoom_eq)
qed

section \<open>The tracked ids of the client\<close>

lemma arrivals_append: "arrivals sid (xs @ ys) = arrivals sid xs + arrivals sid ys"
  by (simp add: arrivals_def)

lemma departures_append: "departures sid (xs @ ys) = departures sid xs + departures sid ys"
  by (simp add: departures_def)

lemma objectArrivals_append:
  "objectArrivals oid (xs @ ys) = objectArrivals oid xs + objectArrivals oid ys"
  by (simp add: objectArrivals_def)

lemma count_simps [simp]:
  "arrivals sid [] = 0" "departures sid [] = 0" "objectArrivals oid [] = 0"
  "arrivals sid (e # es) = (if isArrival sid e then 1 else 0) + arrivals sid es"
  "departures sid (e # es) = (if isDeparture sid e then 1 else 0) + departures sid es"
  "objectArrivals oid (e # es) = (if isObjectArrival oid e then 1 else 0) + objectArrivals oid es"
  by (simp_all add: arrivals_def departures_def objectArrivals_def)

lemma visitPlayer_current:
  "fold (visitPlayer cj cu) ps (tr, cur, calls) = (tr', cur', calls') \<Longrightarrow>
   set cur' = set cur \<union> fst ` set ps"
proof (induction ps arbitrary: tr cur calls)
  case Nil
  then show ?case by simp
next
  case (Cons p ps)
  obtain k pl where p: "p = (k, pl)" by (cases p)
  obtain tr1 cur1 calls1 where v: "visitPlayer cj cu (k, pl) (tr, cur, calls) = (tr1, cur1, calls1)"
    by (cases "visitPlayer cj cu (k, pl) (tr, cur, calls)")
  have rest: "fold (visitPlayer cj cu) ps (tr1, cur1, calls1) = (tr', cur', calls')"
    using Cons.prems by (simp only: p fold_simps v)
  have "set cur1 = insert k (set cur)"
    using v by (auto simp: Let_def set_add_def split: if_splits)
  moreover have "set cur' = set cur1 \<union> fst ` set ps"
    using rest by (rule Cons.IH)
  ultimately show ?case by (auto simp: p)
qed

lemma visitPlayer_tracked_set:
  "fold (visitPlayer cj cu) ps (tr, cur, calls) = (tr', cur', calls') \<Longrightarrow>
   set tr' = set tr \<union> fst ` set ps"
proof (induction ps arbitrary: tr cur calls)
  case Nil
  then show ?case by simp
next
  case (Cons p ps)
  obtain k pl where p: "p = (k, pl)" by (cases p)
  obtain tr1 cur1 calls1 where v: "visitPlayer cj cu (k, pl) (tr, cur, calls) = (tr1, cur1, calls1)"
    by (cases "visitPlayer cj cu (k, pl) (tr, cur, calls)")
  have rest: "fold (visitPlayer cj cu) ps (tr1, cur1, calls1) = (tr', cur', calls')"
    using Cons.prems by (simp only: p fold_simps v)
  have "set tr1 = insert k (set tr)"
    using v by (auto simp: Let_def set_add_def split: if_splits)
  moreover have "set tr' = set tr1 \<union> fst ` set ps"
    using rest by (rule Cons.IH)
  ultimately show ?case by (auto simp: p)
qed

lemma visitPlayer_tracked:
  "fold (visitPlayer cj cu) ps (tr, cur, calls) = (tr', cur', calls') \<Longrightarrow>
   count_list tr' sid =
     (if sid \<in> set tr then count_list tr sid else if sid \<in> fst ` set ps then 1 else 0)"
proof (induction ps arbitrary: tr cur calls)
  case Nil
  then show ?case by (simp add: count_list_0_iff)
next
  case (Cons p ps)
  obtain k pl where p: "p = (k, pl)" by (cases p)
  obtain tr1 cur1 calls1 where v: "visitPlayer cj cu (k, pl) (tr, cur, calls) = (tr1, cur1, calls1)"
    by (cases "visitPlayer cj cu (k, pl) (tr, cur, calls)")
  have tr1: "tr1 = (if k \<in> set tr then tr else tr @ [k])"
    using v by (auto simp: Let_def set_add_def)
  have rest: "fold (visitPlayer cj cu) ps (tr1, cur1, calls1) = (tr', cur', calls')"
    using Cons.prems by (simp only: p fold_simps v)
  have IH: "count_list tr' sid =
     (if sid \<in> set tr1 then count_list tr1 sid else if sid \<in> fst ` set ps then 1 else 0)"
    using rest by (rule Cons.IH)
  show ?case unfolding IH tr1 by (auto simp: p count_list_0_iff)
qed

lemma visitPlayer_calls:
  "fold (visitPlayer cj cu) ps (tr, cur, calls) = (tr', cur', calls') \<Longrightarrow>
   arrivals sid calls' =
     arrivals sid calls + (if cj \<and> sid \<in> fst ` set ps \<and> sid \<notin> set tr then 1 else 0) \<and>
   departures sid calls' = departures sid calls \<and>
   objectArrivals oid calls' = objectArrivals oid calls"
proof (induction ps arbitrary: tr cur calls)
  case Nil
  then show ?case by simp
next
  case (Cons p ps)
  obtain k pl where p: "p = (k, pl)" by (cases p)
  obtain tr1 cur1 calls1 where v: "visitPlayer cj cu (k, pl) (tr, cur, calls) = (tr1, cur1, calls1)"
    by (cases "visitPlayer cj cu (k, pl) (tr, cur, calls)")
  have tr1: "set tr1 = insert k (set tr)"
    using v by (auto simp: Let_def set_add_def split: if_splits)
  have c1: "arrivals sid calls1 =
      arrivals sid calls + (if cj \<and> k = sid \<and> sid \<notin> set tr then 1 else 0)"
    "departures sid calls1 = departures sid calls"
    "objectArrivals oid calls1 = objectArrivals oid calls"
    using v
    by (auto simp: Let_def arrivals_append departures_append objectArrivals_append
          split: if_splits)
  have IH: "arrivals sid calls' =
     arrivals sid calls1 + (if cj \<and> sid \<in> fst ` set ps \<and> sid \<notin> set tr1 then 1 else 0) \<and>
     departures sid calls' = departures sid calls1 \<and>
     objectArrivals oid calls' = objectArrivals oid calls1"
    using Cons.prems Cons.IH [of tr1 cur1 calls1] by (simp only: p fold_simps v)
  show ?case unfolding p using IH c1 tr1 by auto
qed

lemma count_list_removeAll:
  "count_list (removeAll k xs) v = (if k = v then 0 else count_list xs v)"
  by (induction xs) auto

lemma checkRemoved_fold:
  "fold (checkRemoved cl cur) xs (tr, calls) = (tr', calls') \<Longrightarrow>
   departures sid calls' =
     departures sid calls + (if cl \<and> sid \<notin> set cur then count_list xs sid else 0) \<and>
   count_list tr' sid = (if sid \<in> set xs \<and> sid \<notin> set cur then 0 else count_list tr sid) \<and>
   arrivals sid calls' = arrivals sid calls \<and>
   objectArrivals oid calls' = objectArrivals oid calls"
proof (induction xs arbitrary: tr calls)
  case Nil
  then show ?case by simp
next
  case (Cons k xs)
  obtain tr1 calls1 where v: "checkRemoved cl cur k (tr, calls) = (tr1, calls1)"
    by (cases "checkRemoved cl cur k (tr, calls)")
  have c1: "departures sid calls1 =
      departures sid calls + (if cl \<and> k = sid \<and> sid \<notin> set cur then 1 else 0)"
    "count_list tr1 sid = (if k = sid \<and> sid \<notin> set cur then 0 else count_list tr sid)"
    "arrivals sid calls1 = arrivals sid calls"
    "objectArrivals oid calls1 = objectArrivals oid calls"
    using v
    by (auto simp: arrivals_append departures_append objectArrivals_append
          count_list_removeAll split: if_splits)
  have IH: "departures sid calls' =
     departures sid calls1 + (if cl \<and> sid \<notin> set cur then count_list xs sid else 0) \<and>
     count_list tr' sid = (if sid \<in> set xs \<and> sid \<notin> set cur then 0 else count_list tr1 sid) \<and>
     arrivals sid calls' = arrivals sid calls1 \<and>
     objectArrivals oid calls' = objectArrivals oid calls1"
    using Cons.prems Cons.IH [of tr1 calls1] by (simp only: fold_simps v)
  show ?case using IH c1 by auto
qed

lemma visitObject_fold:
  "fold (visitObject ca) os (tr, calls) = (tr', calls') \<Longrightarrow>
   objectArrivals oid calls' =
     objectArrivals oid calls + (if ca \<and> oid \<in> fst ` set os \<and> oid \<notin> set tr then 1 else 0) \<and>
   set tr' = set tr \<union> fst ` set os \<and>
   arrivals sid calls' = arrivals sid calls \<and>
   departures sid calls' = departures sid calls"
proof (induction os arbitrary: tr calls)
  case Nil
  then show ?case by simp
next
  case (Cons p os)
  obtain k ob where p: "p = (k, ob)" by (cases p)
  obtain tr1 calls1 where v: "visitObject ca (k, ob) (tr, calls) = (tr1, calls1)"
    by (cases "visitObject ca (k, ob) (tr, calls)")
  have c1: "objectArrivals oid calls1 =
      objectArrivals oid calls + (if ca \<and> k = oid \<and> oid \<notin> set tr then 1 else 0)"
    "set tr1 = insert k (set tr)"
    "arrivals sid calls1 = arrivals sid calls"
    "departures sid calls1 = departures sid calls"
    using v
    by (auto simp: set_add_def arrivals_append departures_append objectArrivals_append
          split: if_splits)
  have IH: "objectArrivals oid calls' =
     objectArrivals oid calls1 + (if ca \<and> oid \<in> fst ` set os \<and> oid \<notin> set tr1 then 1 else 0) \<and>
     set tr' = set tr1 \<union> fst ` set os \<and>
     arrivals sid calls' = arrivals sid calls1 \<and>
     departures sid calls' = departures sid calls1"
    using Cons.prems Cons.IH [of tr1 calls1] by (simp only: p fold_simps v)
  show ?case unfolding p using IH c1 by auto
qed

lemma processState_counts:
  "arrivals sid (fst (processState st nm)) =
     (if onPlayerJoin nm \<and> sid \<in> fst ` set (s_players st) \<and> sid \<notin> set (trackedPlayers nm)
      then 1 else 0) \<and>
   departures sid (fst (processState st nm)) =
     (if onPlayerLeave nm \<and> sid \<notin> fst ` set (s_players st)
      then count_list (trackedPlayers nm) sid else 0) \<and>
   count_list (trackedPlayers (snd (processState st nm))) sid =
     (if sid \<in> fst ` set (s_players st)
      then (if sid \<in> set (trackedPlayers nm) then count_list (trackedPlayers nm) sid else 1)
      else 0) \<and>
   objectArrivals oid (fst (processState st nm)) =
     (if onWorldObjectAdd nm \<and> oid \<in> fst ` set (s_worldObjects st) \<and>
         oid \<notin> set (trackedObjects nm)
      then 1 else 0) \<and>
   set (trackedObjects (snd (processState st nm))) =
     set (trackedObjects nm) \<union> fst ` set (s_worldObjects st)"
proof -
  obtain tr1 cur calls1 where l1:
    "fold (visitPlayer (onPlayerJoin nm) (onPlayerUpdate nm)) (s_players st)
       (trackedPlayers nm, [], []) = (tr1, cur, calls1)"
    by (cases "fold (visitPlayer (onPlayerJoin nm) (onPlayerUpdate nm)) (s_players st)
       (trackedPlayers nm, [], [])")
  obtain tr2 calls2 where l2:
    "fold (checkRemoved (onPlayerLeave nm) cur) tr1 (tr1, calls1) = (tr2, calls2)"
    by (cases "fold (checkRemoved (onPlayerLeave nm) cur) tr1 (tr1, calls1)")
  obtain ob1 calls3 where l3:
    "fold (visitObject (onWorldObjectAdd nm)) (s_worldObjects st) (trackedObjects nm, calls2)
       = (ob1, calls3)"
    by (cases "fold (visitObject (onWorldObjectAdd nm)) (s_worldObjects st)
       (trackedObjects nm, calls2)")
  have ps: "processState st nm =
     ((if onStateChange nm then calls3 @ [StateChange (s_worldTime st) (s_dayPhase st)]
       else calls3),
      nm\<lparr>trackedPlayers := tr2, trackedObjects := ob1\<rparr>)"
    by (simp add: processState_def l1 l2 l3)
  have cur: "set cur = fst ` set (s_players st)"
    using visitPlayer_current [OF l1] by simp
  note a = visitPlayer_tracked [OF l1, of sid] visitPlayer_calls [OF l1, of sid oid]
  note b = checkRemoved_fold [OF l2, of sid oid]
  note c = visitObject_fold [OF l3, of oid sid]
  have tr1: "sid \<in> set tr1 \<longleftrightarrow> sid \<in> set (trackedPlayers nm) \<or> sid \<in> fst ` set (s_players st)"
    using visitPlayer_tracked_set [OF l1] by simp
  show ?thesis
    unfolding ps using a b c cur tr1
    by (auto simp: arrivals_append departures_append objectArrivals_append
          count_list_0_iff)
qed

lemma processState_callbacks:
  "onPlayerJoin (snd (processState st nm)) = onPlayerJoin nm \<and>
   onPlayerLeave (snd (processState st nm)) = onPlayerLeave nm \<and>
   onWorldObjectAdd (snd (processState st nm)) = onWorldObjectAdd nm"
  by (simp add: processState_def Let_def split: prod.splits)

lemma processAll_Cons:
  "processAll (st # sts) nm =
     (fst (processState st nm) @ fst (processAll sts (snd (processState st nm))),
      snd (processAll sts (snd (processState st nm))))"
  by (simp add: Let_def split: prod.splits)

lemma processAll_tracked:
  assumes "\<forall>st\<in>set snaps. sid \<in> fst ` set (s_players st)"
    and "count_list (trackedPlayers nm) sid = 1"
  shows "arrivals sid (fst (processAll snaps nm)) = 0 \<and>
         departures sid (fst (processAll snaps nm)) = 0 \<and>
         count_list (trackedPlayers (snd (processAll snaps nm))) sid = 1"
  using assms
proof (induction snaps arbitrary: nm)
  case Nil
  then show ?case by simp
next
  case (Cons st snaps)
  have inn: "sid \<in> set (trackedPlayers nm)"
    using Cons.prems(2) by (metis count_list_0_iff zero_neq_one)
  have here: "sid \<in> fst ` set (s_players st)" using Cons.prems(1) by simp
  note c = processState_counts [of sid st nm]
  have n1: "count_list (trackedPlayers (snd (processState st nm))) sid = 1"
    using c inn here Cons.prems(2) by simp
  have "\<forall>st\<in>set snaps. sid \<in> fst ` set (s_players st)" using Cons.prems(1) by simp
  from Cons.IH [OF this n1] show ?case
    unfolding processAll_Cons using c inn here
    by (simp add: arrivals_append departures_append)
qed

lemma processAll_objects:
  assumes "oid \<in> set (trackedObjects nm)"
  shows "objectArrivals oid (fst (processAll snaps nm)) = 0 \<and>
         oid \<in> set (trackedObjects (snd (processAll snaps nm)))"
  using assms
proof (induction snaps arbitrary: nm)
  case Nil
  then show ?case by simp
next
  case (Cons st snaps)
  note c = processState_counts [of _ st nm oid]
  have "oid \<in> set (trackedObjects (snd (processState st nm)))"
    using c Cons.prems by simp
  from Cons.IH [OF this] show ?case
    unfolding processAll_Cons using c Cons.prems
    by (simp add: objectArrivals_append)
qed

lemma processAll_callbacks:
  "onPlayerJoin (snd (processAll snaps nm)) = onPlayerJoin nm \<and>
   onPlayerLeave (snd (processAll snaps nm)) = onPlayerLeave nm \<and>
   onWorldObjectAdd (snd (processAll snaps nm)) = onWorldObjectAdd nm"
proof (induction snaps arbitrary: nm)
  case Nil
  show ?case by simp
next
  case (Cons st snaps)
  show ?case unfolding processAll_Cons using Cons.IH [of "snd (processState st nm)"]
    by (simp add: processState_callbacks)
qed

lemma processAll_absent:
  assumes "\<forall>st\<in>set snaps. sid \<notin> fst ` set (s_players st)"
    and "sid \<notin> set (trackedPlayers nm)"
  shows "arrivals sid (fst (processAll snaps nm)) = 0 \<and>
         departures sid (fst (processAll snaps nm)) = 0 \<and>
         sid \<notin> set (trackedPlayers (snd (processAll snaps nm)))"
  using assms
proof (induction snaps arbitrary: nm)
  case Nil
  then show ?case by simp
next
  case (Cons st snaps)
  have away: "sid \<notin> fst ` set (s_players st)" using Cons.prems(1) by simp
  note c = processState_counts [of sid st nm]
  have n0: "sid \<notin> set (trackedPlayers (snd (processState st nm)))"
    using c away by (simp add: count_list_0_iff [symmetric] del: count_list_0_iff)
  have "\<forall>st\<in>set snaps. sid \<notin> fst ` set (s_players st)" using Cons.prems(1) by simp
  from Cons.IH [OF this n0] show ?case
    unfolding processAll_Cons using c away Cons.prems(2)
    by (simp add: arrivals_append departures_append)
qed

lemma player_interval:
  assumes cbs: "onPlayerJoin nm" "onPlayerLeave nm"
    and new: "sid \<notin> set (trackedPlayers nm)"
    and present: "\<forall>st\<in>set (first # others). sid \<in> fst ` set (s_players st)"
  shows "arrivals sid (fst (processState first nm)) = 1"
    and "arrivals sid (fst (processAll (first # others) nm)) = 1"
    and "departures sid (fst (processAll (first # others) nm)) = 0"
    and "count_list (trackedPlayers (snd (processAll (first # others) nm))) sid = 1"
    and "onPlayerJoin (snd (processAll (first # others) nm))"
    and "onPlayerLeave (snd (processAll (first # others) nm))"
proof -
  define nm1 where "nm1 = snd (processState first nm)"
  have here: "sid \<in> fst ` set (s_players first)" using present by simp
  have later: "\<forall>st\<in>set others. sid \<in> fst ` set (s_players st)" using present by simp
  note c1 = processState_counts [of sid first nm]
  show a1: "arrivals sid (fst (processState first nm)) = 1" using c1 cbs new here by simp
  have d1: "departures sid (fst (processState first nm)) = 0" using c1 here by simp
  have t1: "count_list (trackedPlayers nm1) sid = 1" using c1 new here by (simp add: nm1_def)
  note r = processAll_tracked [OF later t1]
  show "arrivals sid (fst (processAll (first # others) nm)) = 1"
    unfolding processAll_Cons using a1 r by (simp add: arrivals_append nm1_def)
  show "departures sid (fst (processAll (first # others) nm)) = 0"
    unfolding processAll_Cons using d1 r by (simp add: departures_append nm1_def)
  show "count_list (trackedPlayers (snd (processAll (first # others) nm))) sid = 1"
    unfolding processAll_Cons using r by (simp add: nm1_def)
  show "onPlayerJoin (snd (processAll (first # others) nm))"
    "onPlayerLeave (snd (processAll (first # others) nm))"
    using cbs processAll_callbacks [of "first # others" nm] by simp_all
qed

lemma player_departure:
  assumes leave: "onPlayerLeave nm"
    and tracked: "count_list (trackedPlayers nm) sid = 1"
    and absent: "\<forall>st\<in>set (gone # away). sid \<notin> fst ` set (s_players st)"
  shows "departures sid (fst (processState gone nm)) = 1"
    and "departures sid (fst (processAll (gone # away) nm)) = 1"
    and "arrivals sid (fst (processAll (gone # away) nm)) = 0"
    and "sid \<notin> set (trackedPlayers (snd (processAll (gone # away) nm)))"
proof -
  define nm1 where "nm1 = snd (processState gone nm)"
  have miss: "sid \<notin> fst ` set (s_players gone)"
    and misses: "\<forall>st\<in>set away. sid \<notin> fst ` set (s_players st)"
    using absent by simp_all
  note c = processState_counts [of sid gone nm]
  show d: "departures sid (fst (processState gone nm)) = 1" using c leave miss tracked by simp
  have a: "arrivals sid (fst (processState gone nm)) = 0" using c miss by simp
  have t: "sid \<notin> set (trackedPlayers nm1)"
    using c miss by (simp add: nm1_def count_list_0_iff [symmetric] del: count_list_0_iff)
  note f = processAll_absent [OF misses t]
  show "departures sid (fst (processAll (gone # away) nm)) = 1"
    unfolding processAll_Cons using d f by (simp add: departures_append nm1_def)
  show "arrivals sid (fst (processAll (gone # away) nm)) = 0"
    unfolding processAll_Cons using a f by (simp add: arrivals_append nm1_def)
  show "sid \<notin> set (trackedPlayers (snd (processAll (gone # away) nm)))"
    unfolding processAll_Cons using f by (simp add: nm1_def)
qed

lemma object_interval:
  assumes cb: "onWorldObjectAdd nm"
    and new: "oid \<notin> set (trackedObjects nm)"
    and present: "\<forall>st\<in>set (first # others). oid \<in> fst ` set (s_worldObjects st)"
  shows "objectArrivals oid (fst (processState first nm)) = 1"
    and "objectArrivals oid (fst (processAll (first # others) nm)) = 1"
proof -
  have here: "oid \<in> fst ` set (s_worldObjects first)" using present by simp
  note c1 = processState_counts [of _ first nm oid]
  show o1: "objectArrivals oid (fst (processState first nm)) = 1" using c1 cb new here by simp
  have "oid \<in> set (trackedObjects (snd (processState first nm)))" using c1 here by simp
  note ro = processAll_objects [OF this, of others]
  show "objectArrivals oid (fst (processAll (first # others) nm)) = 1"
    unfolding processAll_Cons using o1 ro by (simp add: objectArrivals_append)
qed

lemma processAll_intervals:
  assumes "onPlayerJoin nm" and "onPlayerLeave nm"
    and "count_list (trackedPlayers nm) sid \<le> 1"
  shows "arrivals sid (fst (processAll sts nm)) =
           spec_arrivals (sid \<in> set (trackedPlayers nm))
             (map (\<lambda>st. sid \<in> fst ` set (s_players st)) sts) \<and>
         departures sid (fst (processAll sts nm)) =
           spec_departures (sid \<in> set (trackedPlayers nm))
             (map (\<lambda>st. sid \<in> fst ` set (s_players st)) sts)"
  using assms
proof (induction sts arbitrary: nm)
  case Nil
  show ?case by simp
next
  case (Cons st sts)
  define nm1 where "nm1 = snd (processState st nm)"
  note c = processState_counts [of sid st nm]
  note cb = processState_callbacks [of st nm]
  have cnt: "count_list (trackedPlayers nm) sid = (if sid \<in> set (trackedPlayers nm) then 1 else 0)"
    using Cons.prems(3) count_list_0_iff [of "trackedPlayers nm" sid]
    by (cases "sid \<in> set (trackedPlayers nm)") auto
  have a1: "arrivals sid (fst (processState st nm)) =
      (if sid \<in> fst ` set (s_players st) \<and> sid \<notin> set (trackedPlayers nm) then 1 else 0)"
    using c Cons.prems(1) by simp
  have d1: "departures sid (fst (processState st nm)) =
      (if sid \<in> set (trackedPlayers nm) \<and> sid \<notin> fst ` set (s_players st) then 1 else 0)"
    using c cnt Cons.prems(2) by simp
  have n1: "count_list (trackedPlayers nm1) sid =
      (if sid \<in> fst ` set (s_players st) then 1 else 0)"
    using c cnt unfolding nm1_def by simp
  then have t1: "count_list (trackedPlayers nm1) sid \<le> 1" by simp
  have t2: "sid \<in> set (trackedPlayers nm1) \<longleftrightarrow> sid \<in> fst ` set (s_players st)"
    using n1 count_list_0_iff [of "trackedPlayers nm1" sid]
    by (cases "sid \<in> fst ` set (s_players st)") auto
  have cb1: "onPlayerJoin nm1" "onPlayerLeave nm1"
    using cb Cons.prems(1,2) by (simp_all add: nm1_def)
  note ih = Cons.IH [OF cb1 t1]
  show ?case
    unfolding processAll_Cons list.map spec_arrivals.simps spec_departures.simps
    using a1 d1 ih t2
    by (simp add: arrivals_append departures_append nm1_def)
qed

text \<open>
  C9, amended. With the join and leave callbacks registered and a tracked set that holds
  the player id at most once (a set holds no element twice), over every sequence of
  states the arrival callback is called for the id once for every presence interval that
  begins in the sequence, and the departure callback once for every one that ends in it.
  In particular, take a player id that the manager does not track. Over one or more
  consecutive states that hold it, the arrival callback is called once for it, on the
  first state, and the departure callback not at all. On the first state after these
  that lacks the id the departure callback is called once, and over any further states
  that lack it neither callback is called for it again; the manager then no longer
  tracks the id and has the callbacks it had. Apart from this, with the object callback
  registered, for a world-object id that the manager does not track the arrival callback
  is called once, on the first state, over one or more consecutive states that hold the
  id.
\<close>

theorem arrival_and_departure_once:
  "(onPlayerJoin gm \<longrightarrow> onPlayerLeave gm \<longrightarrow> count_list (trackedPlayers gm) pid \<le> 1 \<longrightarrow>
      arrivals pid (fst (processAll sts gm)) =
        spec_arrivals (pid \<in> set (trackedPlayers gm))
          (map (\<lambda>st. pid \<in> fst ` set (s_players st)) sts) \<and>
      departures pid (fst (processAll sts gm)) =
        spec_departures (pid \<in> set (trackedPlayers gm))
          (map (\<lambda>st. pid \<in> fst ` set (s_players st)) sts)) \<and>
   (onPlayerJoin nm \<longrightarrow> onPlayerLeave nm \<longrightarrow> sid \<notin> set (trackedPlayers nm) \<longrightarrow>
      (\<forall>st\<in>set (first # others). sid \<in> fst ` set (s_players st)) \<longrightarrow>
      arrivals sid (fst (processState first nm)) = 1 \<and>
      arrivals sid (fst (processAll (first # others) nm)) = 1 \<and>
      departures sid (fst (processAll (first # others) nm)) = 0 \<and>
      ((\<forall>st\<in>set (gone # away). sid \<notin> fst ` set (s_players st)) \<longrightarrow>
         departures sid (fst (processState gone (snd (processAll (first # others) nm)))) = 1 \<and>
         departures sid
           (fst (processAll (gone # away) (snd (processAll (first # others) nm)))) = 1 \<and>
         arrivals sid
           (fst (processAll (gone # away) (snd (processAll (first # others) nm)))) = 0 \<and>
         sid \<notin> set (trackedPlayers
           (snd (processAll (gone # away) (snd (processAll (first # others) nm))))) \<and>
         onPlayerJoin
           (snd (processAll (gone # away) (snd (processAll (first # others) nm)))) \<and>
         onPlayerLeave
           (snd (processAll (gone # away) (snd (processAll (first # others) nm)))))) \<and>
   (onWorldObjectAdd om \<longrightarrow> oid \<notin> set (trackedObjects om) \<longrightarrow>
      (\<forall>st\<in>set (ofirst # oothers). oid \<in> fst ` set (s_worldObjects st)) \<longrightarrow>
      objectArrivals oid (fst (processState ofirst om)) = 1 \<and>
      objectArrivals oid (fst (processAll (ofirst # oothers) om)) = 1)"
proof (intro conjI impI)
  assume "onPlayerJoin gm" "onPlayerLeave gm" "count_list (trackedPlayers gm) pid \<le> 1"
  note g = processAll_intervals [OF this, of sts]
  show "arrivals pid (fst (processAll sts gm)) =
      spec_arrivals (pid \<in> set (trackedPlayers gm))
        (map (\<lambda>st. pid \<in> fst ` set (s_players st)) sts)"
    "departures pid (fst (processAll sts gm)) =
      spec_departures (pid \<in> set (trackedPlayers gm))
        (map (\<lambda>st. pid \<in> fst ` set (s_players st)) sts)"
    using g by simp_all
next
  assume cbs: "onPlayerJoin nm" "onPlayerLeave nm"
    and new: "sid \<notin> set (trackedPlayers nm)"
    and present: "\<forall>st\<in>set (first # others). sid \<in> fst ` set (s_players st)"
  note i = player_interval [OF cbs new present]
  show "arrivals sid (fst (processState first nm)) = 1"
    "arrivals sid (fst (processAll (first # others) nm)) = 1"
    "departures sid (fst (processAll (first # others) nm)) = 0"
    by (rule i)+
  assume absent: "\<forall>st\<in>set (gone # away). sid \<notin> fst ` set (s_players st)"
  note d = player_departure [OF i(6) i(4) absent]
  note cb = processAll_callbacks [of "gone # away" "snd (processAll (first # others) nm)"]
  show "departures sid (fst (processState gone (snd (processAll (first # others) nm)))) = 1"
    "departures sid
       (fst (processAll (gone # away) (snd (processAll (first # others) nm)))) = 1"
    "arrivals sid
       (fst (processAll (gone # away) (snd (processAll (first # others) nm)))) = 0"
    "sid \<notin> set (trackedPlayers
       (snd (processAll (gone # away) (snd (processAll (first # others) nm)))))"
    by (rule d)+
  show "onPlayerJoin (snd (processAll (gone # away) (snd (processAll (first # others) nm))))"
    "onPlayerLeave (snd (processAll (gone # away) (snd (processAll (first # others) nm))))"
    using cb i(5,6) by simp_all
next
  assume "onWorldObjectAdd om" "oid \<notin> set (trackedObjects om)"
    "\<forall>st\<in>set (ofirst # oothers). oid \<in> fst ` set (s_worldObjects st)"
  then show "objectArrivals oid (fst (processState ofirst om)) = 1"
    "objectArrivals oid (fst (processAll (ofirst # oothers) om)) = 1"
    by (rule object_interval)+
qed

lemma listeningManager_simps:
  "onPlayerJoin listeningManager" "onPlayerLeave listeningManager"
  "onPlayerUpdate listeningManager" "onWorldObjectAdd listeningManager"
  "onStateChange listeningManager"
  "trackedPlayers listeningManager = []" "trackedObjects listeningManager = []"
  by (simp_all add: listeningManager_def new_NetworkManager_def)

lemma snapshot_simps:
  "s_players emptySnapshot = []" "s_worldObjects emptySnapshot = []"
  "s_players rockSnapshot = []" "s_worldObjects rockSnapshot = [(''rock_0'', rock0)]"
  "s_players playerSnapshot = [(''abcd'', new_Player\<lparr>id := ''abcd''\<rparr>)]"
  "s_worldObjects playerSnapshot = [(''rock_0'', rock0)]"
  "s_worldTime emptySnapshot = Fin 0" "s_dayPhase emptySnapshot = ''day''"
  "s_worldTime rockSnapshot = Fin 0" "s_dayPhase rockSnapshot = ''day''"
  by (simp_all add: emptySnapshot_def rockSnapshot_def playerSnapshot_def)

lemma rock_tracked:
  "processState rockSnapshot listeningManager =
     ([WorldObjectAdd ''rock_0'' (objectData rock0), StateChange (Fin 0) ''day''],
      listeningManager\<lparr>trackedPlayers := [], trackedObjects := [''rock_0'']\<rparr>)"
  by (simp add: processState_def listeningManager_simps snapshot_simps set_add_def)

lemma rock_missing:
  "processState emptySnapshot (listeningManager\<lparr>trackedPlayers := [], trackedObjects := [''rock_0'']\<rparr>) =
     ([StateChange (Fin 0) ''day''],
      listeningManager\<lparr>trackedPlayers := [], trackedObjects := [''rock_0'']\<rparr>)"
  by (simp add: processState_def listeningManager_simps snapshot_simps set_add_def)

lemma rock_back:
  "processState rockSnapshot (listeningManager\<lparr>trackedPlayers := [], trackedObjects := [''rock_0'']\<rparr>) =
     ([StateChange (Fin 0) ''day''],
      listeningManager\<lparr>trackedPlayers := [], trackedObjects := [''rock_0'']\<rparr>)"
  by (simp add: processState_def listeningManager_simps snapshot_simps set_add_def)

text \<open>
  A player who joins when the manager already tracks the world's objects, in a world
  whose later states hold no object at all.
\<close>

theorem arrival_and_departure_once_witness:
  "onPlayerJoin listeningManager \<and> onPlayerLeave listeningManager \<and>
   count_list (trackedPlayers listeningManager) ''abcd'' \<le> 1 \<and>
   arrivals ''abcd''
     (fst (processAll [rockSnapshot, playerSnapshot, playerSnapshot, emptySnapshot,
        playerSnapshot] listeningManager)) = 2 \<and>
   departures ''abcd''
     (fst (processAll [rockSnapshot, playerSnapshot, playerSnapshot, emptySnapshot,
        playerSnapshot] listeningManager)) = 1 \<and>
   onPlayerJoin (snd (processState rockSnapshot listeningManager)) \<and>
   onPlayerLeave (snd (processState rockSnapshot listeningManager)) \<and>
   ''abcd'' \<notin> set (trackedPlayers (snd (processState rockSnapshot listeningManager))) \<and>
   ''abcd'' \<in> fst ` set (s_players playerSnapshot) \<and>
   ''abcd'' \<notin> fst ` set (s_players rockSnapshot) \<and>
   ''abcd'' \<notin> fst ` set (s_players emptySnapshot) \<and>
   arrivals ''abcd''
     (fst (processAll (playerSnapshot # [playerSnapshot, playerSnapshot])
        (snd (processState rockSnapshot listeningManager)))) = 1 \<and>
   departures ''abcd''
     (fst (processAll (emptySnapshot # [rockSnapshot])
        (snd (processAll (playerSnapshot # [playerSnapshot, playerSnapshot])
           (snd (processState rockSnapshot listeningManager)))))) = 1 \<and>
   onWorldObjectAdd listeningManager \<and>
   ''rock_0'' \<notin> set (trackedObjects listeningManager) \<and>
   ''rock_0'' \<in> fst ` set (s_worldObjects rockSnapshot) \<and>
   ''rock_0'' \<in> fst ` set (s_worldObjects playerSnapshot) \<and>
   objectArrivals ''rock_0''
     (fst (processAll (rockSnapshot # [playerSnapshot]) listeningManager)) = 1"
proof -
  define nm where "nm = snd (processState rockSnapshot listeningManager)"
  have h1: "onPlayerJoin nm" "onPlayerLeave nm" "''abcd'' \<notin> set (trackedPlayers nm)"
    by (simp_all add: nm_def rock_tracked listeningManager_simps)
  have h2: "''abcd'' \<in> fst ` set (s_players playerSnapshot)"
    "''abcd'' \<notin> fst ` set (s_players rockSnapshot)"
    "''abcd'' \<notin> fst ` set (s_players emptySnapshot)"
    "''rock_0'' \<in> fst ` set (s_worldObjects rockSnapshot)"
    "''rock_0'' \<in> fst ` set (s_worldObjects playerSnapshot)"
    by (simp_all add: snapshot_simps)
  have h3: "\<forall>st\<in>set (playerSnapshot # [playerSnapshot, playerSnapshot]).
      ''abcd'' \<in> fst ` set (s_players st)"
    using h2 by simp
  have h4: "\<forall>st\<in>set (emptySnapshot # [rockSnapshot]). ''abcd'' \<notin> fst ` set (s_players st)"
    using h2 by simp
  have h5: "onWorldObjectAdd listeningManager"
    "''rock_0'' \<notin> set (trackedObjects listeningManager)"
    by (simp_all add: listeningManager_simps)
  have h6: "\<forall>st\<in>set (rockSnapshot # [playerSnapshot]).
      ''rock_0'' \<in> fst ` set (s_worldObjects st)"
    using h2 by simp
  have h7: "onPlayerJoin listeningManager" "onPlayerLeave listeningManager"
    "count_list (trackedPlayers listeningManager) ''abcd'' \<le> 1"
    "''abcd'' \<notin> set (trackedPlayers listeningManager)"
    by (simp_all add: listeningManager_simps)
  have h8: "spec_arrivals False (map (\<lambda>st. ''abcd'' \<in> fst ` set (s_players st))
        [rockSnapshot, playerSnapshot, playerSnapshot, emptySnapshot, playerSnapshot]) = 2"
    "spec_departures False (map (\<lambda>st. ''abcd'' \<in> fst ` set (s_players st))
        [rockSnapshot, playerSnapshot, playerSnapshot, emptySnapshot, playerSnapshot]) = 1"
    using h2 by simp_all
  note t = arrival_and_departure_once [of listeningManager "''abcd''"
        "[rockSnapshot, playerSnapshot, playerSnapshot, emptySnapshot, playerSnapshot]"
        nm "''abcd''" playerSnapshot
        "[playerSnapshot, playerSnapshot]" emptySnapshot "[rockSnapshot]"
        listeningManager "''rock_0''" rockSnapshot "[playerSnapshot]"]
  have g: "arrivals ''abcd''
     (fst (processAll [rockSnapshot, playerSnapshot, playerSnapshot, emptySnapshot,
        playerSnapshot] listeningManager)) = 2"
    "departures ''abcd''
     (fst (processAll [rockSnapshot, playerSnapshot, playerSnapshot, emptySnapshot,
        playerSnapshot] listeningManager)) = 1"
    using t h7 h8 by simp_all
  show ?thesis
    using t g h1 h2 h3 h4 h5 h6 h7
    unfolding nm_def by blast
qed

text \<open>
  C9, as the claim states it, fails for the ids of world objects. The object \<open>rock_0\<close>
  is in a first state, missing from a second and back in a third: the manager calls the
  arrival callback once, on the first state; on the second state it calls no departure
  callback, and on the third no arrival callback.
\<close>

theorem world_object_never_departs:
  "''rock_0'' \<in> fst ` set (s_worldObjects rockSnapshot) \<and>
   ''rock_0'' \<notin> fst ` set (s_worldObjects emptySnapshot) \<and>
   trackedObjects (snd (processState rockSnapshot listeningManager)) = [''rock_0''] \<and>
   fst (processState emptySnapshot (snd (processState rockSnapshot listeningManager)))
     = [StateChange (Fin 0) ''day''] \<and>
   fst (processState rockSnapshot
          (snd (processAll [rockSnapshot, emptySnapshot] listeningManager)))
     = [StateChange (Fin 0) ''day''] \<and>
   fst (processAll [rockSnapshot, emptySnapshot, rockSnapshot] listeningManager)
     = [WorldObjectAdd ''rock_0'' (objectData rock0), StateChange (Fin 0) ''day'',
        StateChange (Fin 0) ''day'', StateChange (Fin 0) ''day''] \<and>
   objectArrivals ''rock_0''
     (fst (processAll [rockSnapshot, emptySnapshot, rockSnapshot] listeningManager)) = 1"
  by (simp add: processAll_Cons rock_tracked rock_missing rock_back snapshot_simps
        objectArrivals_def del: processAll.simps(2))

end
